theory Spec2Isabelle
  imports Main "HOL-Library.Multiset"
begin

section \<open>Scheduler: \<open>backgroundJob\<close> of the utilities package\<close>

text \<open>
  The source keeps two local variables, \<open>state\<close> and \<open>timeout\<close>, and an inner
  asynchronous function \<open>run\<close>. The model makes the event loop explicit: a timer
  created by \<open>setTimeout\<close> is an entry of \<open>timers\<close> until it fires or is cleared,
  \<open>inFlight\<close> counts the invocations of the unit of work that were started and have
  not settled yet, and \<open>executions\<close> counts every invocation of the unit of work.
\<close>

datatype job_state = Initial | Running | RunningAndMarkedForRerun | Sleeping | Stopped

text \<open>
  The second argument of \<open>setTimeout\<close>: \<open>Zero\<close> is the literal \<open>0\<close>, \<open>AfterInterval\<close>
  stands for \<open>interval + interval * intervalVariance * Math.random()\<close>.
\<close>

datatype delay = Zero | AfterInterval

record job =
  state :: job_state
  timeout :: "nat option"
  timers :: "(nat \<times> delay) list"
  nextTimer :: nat
  inFlight :: nat
  executions :: nat

definition clearTimeout :: "job \<Rightarrow> job" where
  "clearTimeout j =
     (case timeout j of
        None \<Rightarrow> j
      | Some t \<Rightarrow> j\<lparr>timers := filter (\<lambda>(i, d). i \<noteq> t) (timers j)\<rparr>)"

text \<open>The inner \<open>run\<close> up to its \<open>await job()\<close>: the unit of work is invoked.\<close>

definition run :: "job \<Rightarrow> job" where
  "run j = j\<lparr>state := Running, inFlight := inFlight j + 1, executions := executions j + 1\<rparr>"

text \<open>The rest of the inner \<open>run\<close>, resumed when the awaited unit of work has completed.\<close>

definition run_resume :: "job \<Rightarrow> job" where
  "run_resume j =
     (if state j = Running \<or> state j = RunningAndMarkedForRerun then
        j\<lparr>timers := timers j @
               [(nextTimer j, if state j = RunningAndMarkedForRerun then Zero else AfterInterval)],
          timeout := Some (nextTimer j),
          nextTimer := nextTimer j + 1,
          state := Sleeping\<rparr>
      else j)"

text \<open>\<open>backgroundJob(...)\<close>: the variables are initialised and \<open>run()\<close> is called once.\<close>

definition backgroundJob :: job where
  "backgroundJob =
     run \<lparr>state = Initial, timeout = None, timers = [], nextTimer = 0,
          inFlight = 0, executions = 0\<rparr>"

text \<open>The \<open>run\<close> and \<open>stop\<close> methods of the returned handle.\<close>

definition handle_run :: "job \<Rightarrow> job" where
  "handle_run j =
     (case state j of
        Sleeping \<Rightarrow> run (clearTimeout j)
      | Running \<Rightarrow> j\<lparr>state := RunningAndMarkedForRerun\<rparr>
      | _ \<Rightarrow> j)"

definition handle_stop :: "job \<Rightarrow> job" where
  "handle_stop j = (if state j = Sleeping then clearTimeout j else j)\<lparr>state := Stopped\<rparr>"

text \<open>
  What can happen to a job: a caller uses the handle, the unit of work in flight
  completes or fails (a rejected promise ends the inner \<open>run\<close> at its \<open>await\<close>),
  or a pending timer fires and calls the inner \<open>run\<close>.
\<close>

datatype job_event = CallRun | CallStop | JobCompletes | JobFails | TimerFires nat

fun job_step :: "job \<Rightarrow> job_event \<Rightarrow> job" where
  "job_step j CallRun = handle_run j"
| "job_step j CallStop = handle_stop j"
| "job_step j JobCompletes =
     (if inFlight j = 0 then j else run_resume (j\<lparr>inFlight := inFlight j - 1\<rparr>))"
| "job_step j JobFails =
     (if inFlight j = 0 then j else j\<lparr>inFlight := inFlight j - 1\<rparr>)"
| "job_step j (TimerFires t) =
     (if t \<in> fst ` set (timers j)
      then run (j\<lparr>timers := filter (\<lambda>(i, d). i \<noteq> t) (timers j)\<rparr>)
      else j)"

definition job_steps :: "job \<Rightarrow> job_event list \<Rightarrow> job" where
  "job_steps = foldl job_step"

text \<open>
  The invariant of every state a job can reach: a timer is pending exactly while the
  job sleeps, it is the one \<open>timeout\<close> names, and nothing is in flight then.
\<close>

definition job_inv :: "job \<Rightarrow> bool" where
  "job_inv j =
     (inFlight j \<le> 1 \<and> state j \<noteq> Initial \<and>
      (case timers j of
         [] \<Rightarrow> state j \<noteq> Sleeping
       | [(t, d)] \<Rightarrow> state j = Sleeping \<and> timeout j = Some t \<and> inFlight j = 0
       | _ \<Rightarrow> False))"

section \<open>Navigation controller: \<open>liveNavigate\<close>\<close>

text \<open>
  \<open>liveNavigate.abortController\<close> is \<open>undefined\<close> or an \<open>AbortController\<close>; controllers
  are numbered in the order \<open>new AbortController()\<close> creates them. The model covers the
  function from its entry to the point where \<open>fetch\<close> has been issued and records what
  it did on the way.
\<close>

datatype nav_event = NoEvent | PopStateEvent

datatype nav_effect =
    Abort nat
  | Confirm
  | InsertProgressBar
  | StopLiveConnection
  | Fetch nat

record nav =
  abortController :: "nat option"
  nextController :: nat
  inSubmit :: bool

text \<open>
  \<open>modified\<close> is what \<open>isModified(document.querySelector("html"))\<close> returns and
  \<open>confirmed\<close> what \<open>confirm(...)\<close> returns if it is called.
\<close>

definition liveNavigate :: "nav \<Rightarrow> nav_event \<Rightarrow> bool \<Rightarrow> bool \<Rightarrow> nav \<times> nav_effect list" where
  "liveNavigate n event modified confirmed =
     (let proceed = (\<lambda>effects.
            (n\<lparr>abortController := Some (nextController n),
               nextController := nextController n + 1\<rparr>,
             effects @ [InsertProgressBar, StopLiveConnection, Fetch (nextController n)]))
      in
      if event = PopStateEvent then
        proceed (case abortController n of None \<Rightarrow> [] | Some c \<Rightarrow> [Abort c])
      else if abortController n \<noteq> None then (n, [])
      else if \<not> inSubmit n \<and> modified then
        (if \<not> confirmed then (n, [Confirm]) else proceed [Confirm])
      else proceed [])"

text \<open>The \<open>finally\<close> block, run when the awaited work of a call has settled.\<close>

definition liveNavigate_finally :: "nav \<Rightarrow> nav" where
  "liveNavigate_finally n = n\<lparr>abortController := None\<rparr>"

section \<open>The document tree\<close>

text \<open>
  A node of the live document or of a parsed target. \<open>nid\<close> stands for the identity of
  the JavaScript object: two nodes are the same object exactly if they carry the same
  \<open>nid\<close>. An element has its \<open>tagName\<close>, its attributes in order, the
  \<open>liveConnectionUpdate\<close> property that collaborators set on it, what has been set as
  its \<open>value\<close> and as its \<open>checked\<close>, and its child nodes. Text and comment nodes carry
  their \<open>nodeValue\<close>. The source sets \<open>liveConnectionUpdate\<close> to \<open>false\<close> or to a \<open>Set\<close>
  of names, or leaves it \<open>undefined\<close>.

  \<open>valueSet\<close> is the value that the user's editing or an assignment to \<open>value\<close> has
  given a control, \<open>None\<close> while nobody has edited it and nothing was assigned; in that
  state the browser derives the value, from the \<open>value\<close> attribute of an \<open>input\<close> and from
  the text children of a \<open>textarea\<close>. \<open>checkedSet\<close> is the same for \<open>checked\<close>, which is
  derived from the presence of the \<open>checked\<close> attribute.
\<close>

datatype liveConnectionUpdate = LcuUndefined | LcuFalse | LcuSet "string list"

datatype character_data = TextNode | CommentNode

datatype node =
    Element (nid: nat) (tagName: string) (attributes: "(string \<times> string) list")
      (lcu: liveConnectionUpdate) (valueSet: "string option") (checkedSet: "bool option")
      (childNodes: "node list")
  | CharacterData (nid: nat) character_data (nodeValue: string)

fun isElement :: "node \<Rightarrow> bool" where
  "isElement (Element i tag attrs l v c cs) = True"
| "isElement (CharacterData i ty s) = False"

text \<open>\<open>node.liveConnectionUpdate\<close>, which is \<open>undefined\<close> on a node nobody has set it on.\<close>

fun lcu_of :: "node \<Rightarrow> liveConnectionUpdate" where
  "lcu_of (Element i tag attrs l v c cs) = l"
| "lcu_of (CharacterData i ty s) = LcuUndefined"

text \<open>\<open>xs[i]\<close> of JavaScript, \<open>undefined\<close> out of range.\<close>

definition nth_opt :: "'a list \<Rightarrow> nat \<Rightarrow> 'a option" where
  "nth_opt xs i = (if i < length xs then Some (xs ! i) else None)"

definition getAttribute :: "(string \<times> string) list \<Rightarrow> string \<Rightarrow> string option" where
  "getAttribute attrs a = map_of attrs a"

definition getAttributeNames :: "(string \<times> string) list \<Rightarrow> string list" where
  "getAttributeNames attrs = map fst attrs"

definition removeAttribute :: "string \<Rightarrow> (string \<times> string) list \<Rightarrow> (string \<times> string) list" where
  "removeAttribute a attrs = filter (\<lambda>(n, v). n \<noteq> a) attrs"

fun setAttribute :: "string \<Rightarrow> string \<Rightarrow> (string \<times> string) list \<Rightarrow> (string \<times> string) list" where
  "setAttribute a v [] = [(a, v)]"
| "setAttribute a v ((n, w) # attrs) =
     (if n = a then (a, v) # attrs else (n, w) # setAttribute a v attrs)"

text \<open>The child text content of an element: the data of its text children, in order.\<close>

fun childTextContent :: "node list \<Rightarrow> string" where
  "childTextContent [] = []"
| "childTextContent (CharacterData i TextNode s # cs) = s @ childTextContent cs"
| "childTextContent (CharacterData i CommentNode s # cs) = childTextContent cs"
| "childTextContent (Element i tag attrs l v c ds # cs) = childTextContent cs"

text \<open>
  \<open>node.value\<close> and \<open>node.checked\<close>, \<open>None\<close> for \<open>undefined\<close>. An \<open>input\<close> is a text field
  or a check box on its own: what other types of \<open>input\<close>, the sanitization of a value
  and the grouping of radio buttons add is not part of the model, and no element but
  \<open>input\<close> and \<open>textarea\<close> is given a \<open>value\<close>, none but \<open>input\<close> a \<open>checked\<close>.
\<close>

fun valueProperty :: "node \<Rightarrow> string option" where
  "valueProperty (Element i tag attrs l v c cs) =
     (if tag = ''INPUT'' then
        Some (case v of
                Some s \<Rightarrow> s
              | None \<Rightarrow> (case getAttribute attrs ''value'' of None \<Rightarrow> [] | Some s \<Rightarrow> s))
      else if tag = ''TEXTAREA'' then
        Some (case v of Some s \<Rightarrow> s | None \<Rightarrow> childTextContent cs)
      else None)"
| "valueProperty (CharacterData i ty s) = None"

fun checkedProperty :: "node \<Rightarrow> bool option" where
  "checkedProperty (Element i tag attrs l v c cs) =
     (if tag = ''INPUT'' then
        Some (case c of Some b \<Rightarrow> b | None \<Rightarrow> getAttribute attrs ''checked'' \<noteq> None)
      else None)"
| "checkedProperty (CharacterData i ty s) = None"

text \<open>
  What an assignment to \<open>value\<close> and to \<open>checked\<close> of a control makes of the value
  assigned: the string of it, and its truth.
\<close>

fun jsString :: "string option \<Rightarrow> string" where
  "jsString None = ''undefined''"
| "jsString (Some s) = s"

fun jsBoolean :: "bool option \<Rightarrow> bool" where
  "jsBoolean None = False"
| "jsBoolean (Some b) = b"

text \<open>\<open>[...new Set(xs)]\<close>: the elements of \<open>xs\<close> in the order of their first occurrence.\<close>

definition newSet :: "'a list \<Rightarrow> 'a list" where
  "newSet xs = rev (remdups (rev xs))"

text \<open>
  \<open>parents(element)\<close> follows \<open>parentElement\<close> from the element up to the root and returns
  the element followed by its ancestors. \<open>morph\<close> reads only the \<open>liveConnectionUpdate\<close>
  property of what it returns, so the chain of ancestors is kept as the list of their
  properties, the nearest ancestor first.
\<close>

definition parents :: "liveConnectionUpdate \<Rightarrow> liveConnectionUpdate list \<Rightarrow> liveConnectionUpdate list" where
  "parents element ancestors = element # ancestors"

text \<open>\<open>element.liveConnectionUpdate?.has?.(name)\<close>, read as a condition.\<close>

fun has :: "liveConnectionUpdate \<Rightarrow> string \<Rightarrow> bool" where
  "has (LcuSet names) a = (a \<in> set names)"
| "has LcuUndefined a = False"
| "has LcuFalse a = False"

definition protected :: "string \<Rightarrow> bool" where
  "protected a =
     (a = ''state'' \<or> a = ''style'' \<or> a = ''hidden'' \<or> a = ''open'' \<or>
      a = ''disabled'' \<or> a = ''value'' \<or> a = ''checked'')"

text \<open>\<open>from.matches("input, textarea")\<close>; the \<open>tagName\<close> of an HTML element is in upper case.\<close>

definition matchesInputTextarea :: "string \<Rightarrow> bool" where
  "matchesInputTextarea tag = (tag = ''INPUT'' \<or> tag = ''TEXTAREA'')"

text \<open>Every call that mutates the live tree is recorded, with the object it is made on.\<close>

datatype mutation =
    RemoveAttribute nat string
  | SetAttribute nat string string
  | SetValue nat "string option"
  | SetChecked nat "bool option"
  | RemoveChild nat nat
  | InsertBefore nat nat "nat option"

section \<open>Reconciler: \<open>morph\<close>\<close>

subsection \<open>Attributes and properties\<close>

text \<open>One iteration of the loop over the attribute names of both sides.\<close>

definition morphAttribute ::
  "bool \<Rightarrow> liveConnectionUpdate list \<Rightarrow> nat \<Rightarrow> (string \<times> string) list \<Rightarrow>
   (string \<times> string) list \<times> mutation list \<Rightarrow> string \<Rightarrow> (string \<times> string) list \<times> mutation list" where
  "morphAttribute push chain i toAttrs acc a =
     (case acc of (attrs, ms) \<Rightarrow>
        if push \<and> protected a \<and> \<not> list_ex (\<lambda>element. has element a) chain then (attrs, ms)
        else if getAttribute toAttrs a = None
          then (removeAttribute a attrs, ms @ [RemoveAttribute i a])
        else if getAttribute attrs a \<noteq> getAttribute toAttrs a
          then (setAttribute a (the (getAttribute toAttrs a)) attrs,
                ms @ [SetAttribute i a (the (getAttribute toAttrs a))])
        else (attrs, ms))"

definition morphAttributes ::
  "bool \<Rightarrow> liveConnectionUpdate list \<Rightarrow> nat \<Rightarrow> (string \<times> string) list \<Rightarrow>
   (string \<times> string) list \<Rightarrow> (string \<times> string) list \<times> mutation list" where
  "morphAttributes push chain i fromAttrs toAttrs =
     foldl (morphAttribute push chain i toAttrs) (fromAttrs, [])
       (newSet (getAttributeNames fromAttrs @ getAttributeNames toAttrs))"

text \<open>
  The loop over \<open>["value", "checked"]\<close>, entered for an \<open>input\<close> or \<open>textarea\<close>. \<open>from\<close> is
  the live element as the loop over the attributes has left it. The result is what is
  set as \<open>value\<close> and as \<open>checked\<close> afterwards, and the assignments made, each with the
  value assigned. An assignment to \<open>checked\<close> of a \<open>textarea\<close>, which is made only when
  the target is an \<open>input\<close>, puts a property of this name on the object: it is recorded
  and not kept.
\<close>

fun morphProperties ::
  "bool \<Rightarrow> liveConnectionUpdate list \<Rightarrow> node \<Rightarrow> node \<Rightarrow>
   (string option \<times> bool option) \<times> mutation list" where
  "morphProperties push chain (Element i tag attrs l v c cs) to =
     (if matchesInputTextarea tag then
        (let (v1, ms1) =
               (if push \<and> \<not> list_ex (\<lambda>element. has element ''value'') chain then (v, [])
                else if valueProperty (Element i tag attrs l v c cs) \<noteq> valueProperty to
                  then (Some (jsString (valueProperty to)), [SetValue i (valueProperty to)])
                else (v, []));
             (c1, ms2) =
               (if push \<and> \<not> list_ex (\<lambda>element. has element ''checked'') chain then (c, [])
                else if checkedProperty (Element i tag attrs l v c cs) \<noteq> checkedProperty to
                  then (if tag = ''INPUT'' then Some (jsBoolean (checkedProperty to)) else c,
                        [SetChecked i (checkedProperty to)])
                else (c, []))
         in ((v1, c1), ms1 @ ms2))
      else ((v, c), []))"
| "morphProperties push chain (CharacterData i ty s) to = ((None, None), [])"

subsection \<open>Keys and the diff\<close>

fun nodeType :: "node \<Rightarrow> string" where
  "nodeType (Element i tag attrs l v c cs) = ''1''"
| "nodeType (CharacterData i TextNode s) = ''3''"
| "nodeType (CharacterData i CommentNode s) = ''8''"

text \<open>The template string of \<open>key\<close>; an absent \<open>key\<close> attribute prints as \<open>null\<close>.\<close>

fun key :: "node \<Rightarrow> string" where
  "key (Element i tag attrs l v c cs) =
     ''1'' @ ''--'' @ tag @ ''--'' @ (case getAttribute attrs ''key'' of None \<Rightarrow> ''null'' | Some k \<Rightarrow> k)"
| "key (CharacterData i ty s) = nodeType (CharacterData i ty s) @ ''--'' @ s"

text \<open>
  A quadruple \<open>[fromStart, fromEnd, toStart, toEnd]\<close> of the diff. The diff itself is the
  package \<open>fast-myers-diff\<close>, which is not part of this repository: \<open>morph\<close> takes it as
  a parameter.
\<close>

type_synonym hunk = "nat \<times> nat \<times> nat \<times> nat"

type_synonym differ = "string list \<Rightarrow> string list \<Rightarrow> hunk list"

subsection \<open>The removal candidates\<close>

text \<open>\<open>toRemove\<close>, a \<open>Map\<close> from keys to arrays of nodes, in insertion order.\<close>

type_synonym queues = "(string \<times> node list) list"

text \<open>\<open>toRemove.get(key)?.push(node) ?? toRemove.set(key, [node])\<close>\<close>

fun enqueue :: "string \<Rightarrow> node \<Rightarrow> queues \<Rightarrow> queues" where
  "enqueue k n [] = [(k, [n])]"
| "enqueue k n ((k', q) # Q) =
     (if k' = k then (k', q @ [n]) # Q else (k', q) # enqueue k n Q)"

text \<open>\<open>toRemove.get(key)?.shift()\<close>\<close>

fun shift :: "string \<Rightarrow> queues \<Rightarrow> node option \<times> queues" where
  "shift k [] = (None, [])"
| "shift k ((k', q) # Q) =
     (if k' = k then
        (case q of [] \<Rightarrow> (None, (k', q) # Q) | n # q' \<Rightarrow> (Some n, (k', q') # Q))
      else (case shift k Q of (r, Q') \<Rightarrow> (r, (k', q) # Q')))"

text \<open>The array stored under a key, empty if there is none.\<close>

definition queue :: "queues \<Rightarrow> string \<Rightarrow> node list" where
  "queue Q k = (case map_of Q k of None \<Rightarrow> [] | Some q \<Rightarrow> q)"

text \<open>Every node of \<open>toRemove.values()\<close>, in the order the removal loop visits them.\<close>

definition candidates :: "queues \<Rightarrow> node list" where
  "candidates Q = concat (map snd Q)"

text \<open>
  The first pair of loops: the live children inside the gaps become removal candidates,
  except, on a push update, those whose \<open>liveConnectionUpdate\<close> is \<open>false\<close>. An index
  outside the child list yields \<open>undefined\<close>, on which the function throws before it
  returns (at once on a push update, at \<open>removeChild\<close> or \<open>insertBefore\<close> otherwise):
  the result is \<open>None\<close>.
\<close>

fun collectNodes :: "bool \<Rightarrow> node list \<Rightarrow> nat list \<Rightarrow> queues \<Rightarrow> queues option" where
  "collectNodes push fcs [] Q = Some Q"
| "collectNodes push fcs (nodeIndex # rest) Q =
     (case nth_opt fcs nodeIndex of
        None \<Rightarrow> None
      | Some n \<Rightarrow>
          if push \<and> lcu_of n = LcuFalse then collectNodes push fcs rest Q
          else collectNodes push fcs rest (enqueue (key n) n Q))"

fun collect :: "bool \<Rightarrow> node list \<Rightarrow> hunk list \<Rightarrow> queues \<Rightarrow> queues option" where
  "collect push fcs [] Q = Some Q"
| "collect push fcs ((fromStart, fromEnd, toStart, toEnd) # hs) Q =
     (case collectNodes push fcs [fromStart..<fromEnd] Q of
        None \<Rightarrow> None
      | Some Q' \<Rightarrow> collect push fcs hs Q')"

subsection \<open>Resolving the target children\<close>

text \<open>
  \<open>toAdd\<close> holds the node to insert and the \<open>nid\<close> of \<open>nodeAfter\<close> (\<open>None\<close> for \<open>null\<close>);
  \<open>toMorph\<close> holds the live node and the index of the target child it is paired with.
\<close>

type_synonym resolution = "queues \<times> (node \<times> nat option) list \<times> (node \<times> nat) list"

fun pairMatched :: "node list \<Rightarrow> nat \<Rightarrow> nat \<Rightarrow> nat list \<Rightarrow> (node \<times> nat) list option" where
  "pairMatched fcs previousFromEnd previousToEnd [] = Some []"
| "pairMatched fcs previousFromEnd previousToEnd (nodeIndexOffset # rest) =
     (case nth_opt fcs (previousFromEnd + nodeIndexOffset) of
        None \<Rightarrow> None
      | Some f \<Rightarrow>
          (case pairMatched fcs previousFromEnd previousToEnd rest of
             None \<Rightarrow> None
           | Some ps \<Rightarrow> Some ((f, previousToEnd + nodeIndexOffset) # ps)))"

fun resolveNodes ::
  "node list \<Rightarrow> node list \<Rightarrow> nat \<Rightarrow> nat list \<Rightarrow> resolution \<Rightarrow> resolution option" where
  "resolveNodes fcs tcs fromEnd [] r = Some r"
| "resolveNodes fcs tcs fromEnd (nodeIndex # rest) (Q, toAdd, toMorph) =
     (case nth_opt tcs nodeIndex of
        None \<Rightarrow> None
      | Some toChildNode \<Rightarrow>
          (case shift (key toChildNode) Q of
             (Some fromChildNode, Q') \<Rightarrow>
               resolveNodes fcs tcs fromEnd rest
                 (Q', toAdd @ [(fromChildNode, map_option nid (nth_opt fcs fromEnd))],
                  toMorph @ [(fromChildNode, nodeIndex)])
           | (None, Q') \<Rightarrow>
               resolveNodes fcs tcs fromEnd rest
                 (Q', toAdd @ [(toChildNode, map_option nid (nth_opt fcs fromEnd))], toMorph)))"

fun resolve ::
  "node list \<Rightarrow> node list \<Rightarrow> hunk \<Rightarrow> hunk list \<Rightarrow> resolution \<Rightarrow> resolution option" where
  "resolve fcs tcs previous [] r = Some r"
| "resolve fcs tcs (previousFromStart, previousFromEnd, previousToStart, previousToEnd)
       ((fromStart, fromEnd, toStart, toEnd) # hs) (Q, toAdd, toMorph) =
     (case pairMatched fcs previousFromEnd previousToEnd [0..<fromStart - previousFromEnd] of
        None \<Rightarrow> None
      | Some ps \<Rightarrow>
          (case resolveNodes fcs tcs fromEnd [toStart..<toEnd] (Q, toAdd, toMorph @ ps) of
             None \<Rightarrow> None
           | Some r \<Rightarrow> resolve fcs tcs (fromStart, fromEnd, toStart, toEnd) hs r))"

subsection \<open>Applying removals and insertions\<close>

text \<open>\<open>parent.removeChild(node)\<close> throws if \<open>node\<close> is not a child of \<open>parent\<close>.\<close>

definition removeChild :: "node list \<Rightarrow> node \<Rightarrow> node list option" where
  "removeChild cs n =
     (if nid n \<in> nid ` set cs then Some (filter (\<lambda>c. nid c \<noteq> nid n) cs) else None)"

fun removeChildren ::
  "nat \<Rightarrow> node list \<Rightarrow> node list \<times> mutation list \<Rightarrow> (node list \<times> mutation list) option" where
  "removeChildren p [] acc = Some acc"
| "removeChildren p (n # ns) (cs, ms) =
     (case removeChild cs n of
        None \<Rightarrow> None
      | Some cs' \<Rightarrow> removeChildren p ns (cs', ms @ [RemoveChild p (nid n)]))"

text \<open>
  \<open>parent.insertBefore(node, child)\<close>: it throws if \<open>child\<close> is not \<open>null\<close> and not a
  child of \<open>parent\<close>; if \<open>child\<close> is \<open>node\<close> itself the reference becomes the next sibling
  of \<open>node\<close>; \<open>node\<close> leaves the place it had and enters before the reference, or at the
  end for \<open>null\<close>.
\<close>

definition nextSibling :: "node list \<Rightarrow> nat \<Rightarrow> nat option" where
  "nextSibling cs i =
     (case dropWhile (\<lambda>c. nid c \<noteq> i) cs of
        c # s # rest \<Rightarrow> Some (nid s)
      | _ \<Rightarrow> None)"

definition insertBefore :: "node list \<Rightarrow> node \<Rightarrow> nat option \<Rightarrow> node list option" where
  "insertBefore cs n child =
     (case child of
        None \<Rightarrow> Some (filter (\<lambda>c. nid c \<noteq> nid n) cs @ [n])
      | Some a \<Rightarrow>
          if a \<notin> nid ` set cs then None
          else
            (let cs' = filter (\<lambda>c. nid c \<noteq> nid n) cs in
             case (if a = nid n then nextSibling cs a else Some a) of
               None \<Rightarrow> Some (cs' @ [n])
             | Some r \<Rightarrow>
                 Some (takeWhile (\<lambda>c. nid c \<noteq> r) cs' @ n # dropWhile (\<lambda>c. nid c \<noteq> r) cs')))"

fun insertNodes ::
  "nat \<Rightarrow> (node \<times> nat option) list \<Rightarrow> node list \<times> mutation list \<Rightarrow>
   (node list \<times> mutation list) option" where
  "insertNodes p [] acc = Some acc"
| "insertNodes p ((n, nodeAfter) # rest) (cs, ms) =
     (case insertBefore cs n nodeAfter of
        None \<Rightarrow> None
      | Some cs' \<Rightarrow> insertNodes p rest (cs', ms @ [InsertBefore p (nid n) nodeAfter]))"

text \<open>
  From the diff to the new child list: both pairs of loops, the removals and the
  insertions. The result is the child list, the mutations made and \<open>toMorph\<close>.
\<close>

definition reconcile ::
  "differ \<Rightarrow> bool \<Rightarrow> nat \<Rightarrow> node list \<Rightarrow> node list \<Rightarrow>
   (node list \<times> mutation list \<times> (node \<times> nat) list) option" where
  "reconcile diff push p fcs tcs =
     (let hunks = diff (map key fcs) (map key tcs) in
      case collect push fcs hunks [] of
        None \<Rightarrow> None
      | Some toRemove \<Rightarrow>
          (case resolve fcs tcs (0, 0, 0, 0)
                  (hunks @ [(length fcs, length fcs, length tcs, length tcs)])
                  (toRemove, [], []) of
             None \<Rightarrow> None
           | Some (toRemove', toAdd, toMorph) \<Rightarrow>
               (case removeChildren p (candidates toRemove') (fcs, []) of
                  None \<Rightarrow> None
                | Some (cs, ms) \<Rightarrow>
                    (case insertNodes p toAdd (cs, ms) of
                       None \<Rightarrow> None
                     | Some (cs', ms') \<Rightarrow> Some (cs', ms', toMorph)))))"

subsection \<open>The function\<close>

text \<open>The element of \<open>cs\<close> that is the object \<open>n\<close> takes the state \<open>n'\<close>.\<close>

definition replaceChild :: "node list \<Rightarrow> node \<Rightarrow> node \<Rightarrow> node list" where
  "replaceChild cs n n' = map (\<lambda>c. if nid c = nid n then n' else c) cs"

text \<open>
  \<open>morph diff ancestors push from to\<close> is \<open>morph(from, to, event)\<close>, where \<open>push\<close> says
  whether \<open>event?.detail?.liveConnectionUpdate\<close> holds and \<open>ancestors\<close> are the
  \<open>liveConnectionUpdate\<close> properties of the ancestors of \<open>from\<close>. It returns the state of
  \<open>from\<close> after the call and the mutations made, or \<open>None\<close> if the call throws.
  \<open>morphAll\<close> is the last loop, over \<open>toMorph\<close>: a target index outside the child list
  yields \<open>undefined\<close>, on which the recursive call throws unless it returns at its
  first line. A live node enters \<open>toMorph\<close> once when the quadruples of the diff do not
  overlap, so the state it had when its pair was formed is the state the call finds.
\<close>

function morph ::
    "differ \<Rightarrow> liveConnectionUpdate list \<Rightarrow> bool \<Rightarrow> node \<Rightarrow> node \<Rightarrow> (node \<times> mutation list) option"
  and morphAll ::
    "differ \<Rightarrow> liveConnectionUpdate list \<Rightarrow> bool \<Rightarrow> node list \<Rightarrow> (node \<times> nat) list \<Rightarrow>
     node list \<times> mutation list \<Rightarrow> (node list \<times> mutation list) option" where
  "morph diff ancestors push (Element i tag attrs l v c fcs) (Element i' tag' attrs' l' v' c' tcs) =
     (if push \<and> l = LcuFalse then Some (Element i tag attrs l v c fcs, [])
      else
        (case morphAttributes push (parents l ancestors) i attrs attrs' of (attrs1, ms1) \<Rightarrow>
          (case morphProperties push (parents l ancestors) (Element i tag attrs1 l v c fcs)
                  (Element i' tag' attrs' l' v' c' tcs) of ((v1, c1), ms2) \<Rightarrow>
            (case reconcile diff push i fcs tcs of
               None \<Rightarrow> None
             | Some (cs, ms3, toMorph) \<Rightarrow>
                 (case morphAll diff (parents l ancestors) push tcs toMorph (cs, []) of
                    None \<Rightarrow> None
                  | Some (cs', ms4) \<Rightarrow>
                      Some (Element i tag attrs1 l v1 c1 cs', ms1 @ ms2 @ ms3 @ ms4))))))"
| "morph diff ancestors push (Element i tag attrs l v c fcs) (CharacterData i' ty s) =
     (if push \<and> l = LcuFalse then Some (Element i tag attrs l v c fcs, []) else None)"
| "morph diff ancestors push (CharacterData i ty s) to = None"
| "morphAll diff chain push tcs [] acc = Some acc"
| "morphAll diff chain push tcs ((f, j) # rest) (cs, ms) =
     (if isElement f then
        (case nth_opt tcs j of
           None \<Rightarrow>
             if push \<and> lcu_of f = LcuFalse then morphAll diff chain push tcs rest (cs, ms)
             else None
         | Some t \<Rightarrow>
             (case morph diff chain push f t of
                None \<Rightarrow> None
              | Some (f', ms') \<Rightarrow>
                  morphAll diff chain push tcs rest (replaceChild cs f f', ms @ ms')))
      else morphAll diff chain push tcs rest (cs, ms))"
  by pat_completeness auto

termination
  apply (relation "inv_image (less_than <*lex*> less_than)
        (\<lambda>x. case x of
           Inl (diff, ancestors, push, f, t) \<Rightarrow> (size t, 0)
         | Inr (diff, chain, push, tcs, toMorph, acc) \<Rightarrow> (size_list size tcs, Suc (length toMorph)))")
  subgoal by auto
  subgoal by simp
  subgoal by simp
  subgoal for diff chain push tcs f j rest cs ms t
  proof -
    assume "nth_opt tcs j = Some t"
    then have j: "j < length tcs" and t: "t = tcs ! j"
      by (auto simp: nth_opt_def split: if_splits)
    from j have "size (tcs ! j) \<le> sum_list (map size tcs)"
      by (simp add: member_le_sum_list)
    with j have "size (tcs ! j) < size_list size tcs"
      by (cases tcs) (auto simp: size_list_conv_sum_list)
    with t show ?thesis by simp
  qed
  subgoal by simp
  subgoal by simp
  done

subsection \<open>Clones and a reference diff\<close>

text \<open>
  \<open>node.cloneNode(true)\<close>: a copy of the subtree made of new objects (\<open>fresh\<close> names
  them). Attributes are copied, and so is what is set as \<open>value\<close> and \<open>checked\<close> of a
  control; a property set by a script, such as \<open>liveConnectionUpdate\<close>, is not.
\<close>

fun clone :: "(nat \<Rightarrow> nat) \<Rightarrow> node \<Rightarrow> node" where
  "clone fresh (Element i tag attrs l v c cs) =
     Element (fresh i) tag attrs LcuUndefined v c (map (clone fresh) cs)"
| "clone fresh (CharacterData i ty s) = CharacterData (fresh i) ty s"

text \<open>
  A diff of the kind \<open>morph\<close> is given: a shortest edit script, found through the length
  of the longest common subsequence, with every maximal run of deletions and insertions
  reported as one quadruple. It instantiates the parameter \<open>diff\<close> where a concrete
  differ is needed. Where two sequences have several shortest edit scripts the package
  may report another one than \<open>lcsDiff\<close> does, so \<open>lcsDiff\<close> stands for the package only on
  sequences with exactly one shortest edit script; every example below is of that kind.
\<close>

fun lcsLength :: "string list \<Rightarrow> string list \<Rightarrow> nat" where
  "lcsLength [] ys = 0"
| "lcsLength (x # xs) [] = 0"
| "lcsLength (x # xs) (y # ys) =
     (if x = y then Suc (lcsLength xs ys)
      else max (lcsLength xs (y # ys)) (lcsLength (x # xs) ys))"

datatype edit = Keep | Delete | Insert

fun editScript :: "string list \<Rightarrow> string list \<Rightarrow> edit list" where
  "editScript [] ys = replicate (length ys) Insert"
| "editScript (x # xs) [] = replicate (Suc (length xs)) Delete"
| "editScript (x # xs) (y # ys) =
     (if x = y then Keep # editScript xs ys
      else if lcsLength (x # xs) ys \<le> lcsLength xs (y # ys) then Delete # editScript xs (y # ys)
      else Insert # editScript (x # xs) ys)"

fun hunksOf :: "nat \<Rightarrow> nat \<Rightarrow> hunk option \<Rightarrow> edit list \<Rightarrow> hunk list" where
  "hunksOf i j cur [] = (case cur of None \<Rightarrow> [] | Some h \<Rightarrow> [h])"
| "hunksOf i j cur (Keep # es) =
     (case cur of None \<Rightarrow> [] | Some h \<Rightarrow> [h]) @ hunksOf (i + 1) (j + 1) None es"
| "hunksOf i j cur (Delete # es) =
     hunksOf (i + 1) j
       (Some (case cur of None \<Rightarrow> (i, i + 1, j, j) | Some (a, b, c, d) \<Rightarrow> (a, i + 1, c, d))) es"
| "hunksOf i j cur (Insert # es) =
     hunksOf i (j + 1)
       (Some (case cur of None \<Rightarrow> (i, i, j, j + 1) | Some (a, b, c, d) \<Rightarrow> (a, b, c, j + 1))) es"

definition lcsDiff :: differ where
  "lcsDiff xs ys = hunksOf 0 0 None (editScript xs ys)"

subsection \<open>Notions used in the statements and proofs about \<open>morph\<close>\<close>

text \<open>The objects of a tree; a tree is well formed if no object occurs in it twice.\<close>

fun nids :: "node \<Rightarrow> nat list" where
  "nids (Element i tag attrs l v c cs) = i # concat (map nids cs)"
| "nids (CharacterData i ty s) = [i]"

text \<open>The live indices inside the gaps of a diff, in the order the first loop visits them.\<close>

definition gapIndices :: "hunk list \<Rightarrow> nat list" where
  "gapIndices hunks = concat (map (\<lambda>(fromStart, fromEnd, toStart, toEnd). [fromStart..<fromEnd]) hunks)"

text \<open>A live child inside a gap becomes a removal candidate unless a push update finds it pinned.\<close>

definition removable :: "bool \<Rightarrow> node \<Rightarrow> bool" where
  "removable push n = (\<not> (push \<and> lcu_of n = LcuFalse))"

text \<open>Each key occurs once in \<open>toRemove\<close> and each node is stored under its own key.\<close>

definition queues_ok :: "queues \<Rightarrow> bool" where
  "queues_ok Q = (distinct (map fst Q) \<and> (\<forall>(k, q) \<in> set Q. \<forall>m \<in> set q. key m = k))"

text \<open>
  What the second pair of loops achieves, from the queues \<open>Q\<close> it starts with to the
  queues \<open>Q'\<close> it leaves, with the \<open>toAdd\<close> and \<open>toMorph\<close> it produces: under every key
  the live nodes that are inserted again are the first ones of the queue, in order, and
  the rest of the queue is left; an inserted node is a live child or a target child; a
  target child is inserted only if no node of its key is left in the queues; and a live
  child that is inserted again is paired in \<open>toMorph\<close> with a target child of its key.
\<close>

definition resolved ::
  "node list \<Rightarrow> node list \<Rightarrow> queues \<Rightarrow> queues \<Rightarrow> (node \<times> nat option) list \<Rightarrow> (node \<times> nat) list \<Rightarrow> bool" where
  "resolved fcs tcs Q Q' toAdd toMorph =
     ((\<forall>k. queue Q k = filter (\<lambda>n. n \<in> set fcs \<and> key n = k) (map fst toAdd) @ queue Q' k) \<and>
      (\<forall>(n, a) \<in> set toAdd. n \<in> set fcs \<or> n \<in> set tcs) \<and>
      (\<forall>(n, a) \<in> set toAdd. n \<in> set tcs \<longrightarrow> (\<forall>m \<in> set (candidates Q'). key m \<noteq> key n)) \<and>
      (\<forall>(n, a) \<in> set toAdd. n \<in> set fcs \<longrightarrow>
         (\<exists>j t. (n, j) \<in> set toMorph \<and> nth_opt tcs j = Some t \<and> key t = key n)))"

text \<open>
  The target indices inside the gaps of a diff, in the order the second pair of loops
  visits them, each with the \<open>nodeAfter\<close> of its gap.
\<close>

definition targetSlots :: "node list \<Rightarrow> hunk list \<Rightarrow> (nat \<times> nat option) list" where
  "targetSlots fcs hunks =
     concat (map (\<lambda>(fromStart, fromEnd, toStart, toEnd).
                    map (\<lambda>nodeIndex. (nodeIndex, map_option nid (nth_opt fcs fromEnd))) [toStart..<toEnd])
                 hunks)"

text \<open>
  An entry of \<open>toAdd\<close> fills a slot: it goes before the \<open>nodeAfter\<close> of the slot, and its
  node has the key of the target child of the slot and is that target child or a live
  child paired with the slot in \<open>toMorph\<close>.
\<close>

definition fills ::
  "node list \<Rightarrow> node list \<Rightarrow> (node \<times> nat) list \<Rightarrow> node \<times> nat option \<Rightarrow> nat \<times> nat option \<Rightarrow> bool" where
  "fills fcs tcs toMorph entry slot =
     (snd entry = snd slot \<and>
      (case nth_opt tcs (fst slot) of
         None \<Rightarrow> False
       | Some t \<Rightarrow>
           key (fst entry) = key t \<and>
           (fst entry = t \<or> (fst entry \<in> set fcs \<and> (fst entry, fst slot) \<in> set toMorph))))"

text \<open>
  The quadruples lie one after another on the live side, as the package reports them:
  each starts where the one before has ended or later.
\<close>

fun hunksOrdered :: "nat \<Rightarrow> hunk list \<Rightarrow> bool" where
  "hunksOrdered previousFromEnd [] = True"
| "hunksOrdered previousFromEnd ((fromStart, fromEnd, toStart, toEnd) # hs) =
     (previousFromEnd \<le> fromStart \<and> fromStart \<le> fromEnd \<and> hunksOrdered fromEnd hs)"

text \<open>
  The children of a \<open>textarea\<close> as the parser leaves them: nothing, or one text node
  that is not empty.
\<close>

fun parsedText :: "node list \<Rightarrow> bool" where
  "parsedText [] = True"
| "parsedText [CharacterData i TextNode s] = (s \<noteq> [])"
| "parsedText cs = False"

text \<open>
  Nodes for the examples: a list, an item with a key and a text, any element with
  nothing set on it, a text field and a text area.
\<close>

definition ul :: "nat \<Rightarrow> node list \<Rightarrow> node" where
  "ul i cs = Element i ''UL'' [] LcuUndefined None None cs"

definition li :: "nat \<Rightarrow> string \<Rightarrow> node" where
  "li i k = Element i ''LI'' [(''key'', k)] LcuUndefined None None [CharacterData (i + 100) TextNode k]"

definition el :: "nat \<Rightarrow> string \<Rightarrow> (string \<times> string) list \<Rightarrow> node list \<Rightarrow> node" where
  "el i tag attrs cs = Element i tag attrs LcuUndefined None None cs"

definition input ::
  "nat \<Rightarrow> liveConnectionUpdate \<Rightarrow> string \<Rightarrow> string option \<Rightarrow> bool option \<Rightarrow> node" where
  "input i l attribute v c = Element i ''INPUT'' [(''value'', attribute)] l v c []"

definition textarea :: "nat \<Rightarrow> liveConnectionUpdate \<Rightarrow> string option \<Rightarrow> node list \<Rightarrow> node" where
  "textarea i l v cs = Element i ''TEXTAREA'' [] l v None cs"

section \<open>Mounting a document: \<open>documentMount\<close>\<close>

text \<open>
  The page: the \<open>html\<close> element of the live document, the \<open>isModified\<close> property set on
  it (\<open>None\<close> while nobody has set it), the events given to \<open>window.dispatchEvent\<close> (each
  recorded by whether its \<open>detail.liveConnectionUpdate\<close> holds), the mutations \<open>morph\<close>
  made, the \<open>nid\<close> of the next object the page creates, the element kept in
  \<open>liveConnection.failedToConnectGlobalError\<close> and the number of calls of
  \<open>window.location.reload\<close>.
\<close>

record document =
  documentElement :: node
  htmlIsModified :: "bool option"
  dispatched :: "bool list"
  mutations :: "mutation list"
  nextNid :: nat
  failedToConnectGlobalError :: "nat option"
  reloads :: nat

text \<open>The elements below a node, in document order.\<close>

fun descendants :: "node \<Rightarrow> node list" where
  "descendants (Element i tag attrs l v c cs) =
     concat (map (\<lambda>n. if isElement n then n # descendants n else []) cs)"
| "descendants (CharacterData i ty s) = []"

text \<open>The selectors the source uses.\<close>

fun metaVersion :: "node \<Rightarrow> bool" where
  "metaVersion (Element i tag attrs l v c cs) =
     (tag = ''META'' \<and> getAttribute attrs ''name'' = Some ''version'')"
| "metaVersion (CharacterData i ty s) = False"

fun keyGlobalError :: "node \<Rightarrow> bool" where
  "keyGlobalError (Element i tag attrs l v c cs) = (getAttribute attrs ''key'' = Some ''global-error'')"
| "keyGlobalError (CharacterData i ty s) = False"

fun isBody :: "node \<Rightarrow> bool" where
  "isBody (Element i tag attrs l v c cs) = (tag = ''BODY'')"
| "isBody (CharacterData i ty s) = False"

text \<open>\<open>element.querySelector(selector)\<close> looks below the element.\<close>

definition querySelector :: "(node \<Rightarrow> bool) \<Rightarrow> node \<Rightarrow> node option" where
  "querySelector selector element = find selector (descendants element)"

text \<open>\<open>document.querySelector(selector)\<close> looks at every element of the document.\<close>

definition documentQuerySelector :: "(node \<Rightarrow> bool) \<Rightarrow> node \<Rightarrow> node option" where
  "documentQuerySelector selector root = find selector (root # descendants root)"

text \<open>\<open>...querySelector('meta[name="version"]')?.getAttribute("content")\<close>\<close>

fun contentAttribute :: "node option \<Rightarrow> string option" where
  "contentAttribute None = None"
| "contentAttribute (Some (Element i tag attrs l v c cs)) = getAttribute attrs ''content''"
| "contentAttribute (Some (CharacterData i ty s)) = None"

text \<open>The tree without the object \<open>r\<close>, which is not the root.\<close>

fun removeNode :: "nat \<Rightarrow> node \<Rightarrow> node" where
  "removeNode r (Element i tag attrs l v c cs) =
     Element i tag attrs l v c (map (removeNode r) (filter (\<lambda>n. nid n \<noteq> r) cs))"
| "removeNode r (CharacterData i ty s) = CharacterData i ty s"

text \<open>
  \<open>document.querySelector('[key="global-error"]')?.remove()\<close>. If the element found is
  the \<open>html\<close> element the document is left without one, and the statement that follows
  in each of the three places of the source, a call on
  \<open>document.querySelector("body")\<close>, throws: the result is \<open>None\<close>.
\<close>

definition removeGlobalError :: "node \<Rightarrow> node option" where
  "removeGlobalError root =
     (case documentQuerySelector keyGlobalError root of
        None \<Rightarrow> Some root
      | Some e \<Rightarrow> if nid e = nid root then None else Some (removeNode (nid e) root))"

text \<open>The tree with \<open>new\<close> as the first child of the object \<open>b\<close>.\<close>

fun insertAfterBegin :: "nat \<Rightarrow> node \<Rightarrow> node \<Rightarrow> node" where
  "insertAfterBegin b new (Element i tag attrs l v c cs) =
     (if i = b then Element i tag attrs l v c (new # cs)
      else Element i tag attrs l v c (map (insertAfterBegin b new) cs))"
| "insertAfterBegin b new (CharacterData i ty s) = CharacterData i ty s"

text \<open>
  \<open>document.querySelector("body").insertAdjacentHTML("afterbegin", ...)\<close> and
  \<open>insertAdjacentElement\<close>; it throws if there is no \<open>body\<close>.
\<close>

definition insertIntoBody :: "node \<Rightarrow> node \<Rightarrow> node option" where
  "insertIntoBody new root =
     (case documentQuerySelector isBody root of
        None \<Rightarrow> None
      | Some b \<Rightarrow> Some (insertAfterBegin (nid b) new root))"

text \<open>
  \<open><div key="global-error">message</div>\<close> parsed into new objects; the white space
  that the template has around the element and around the message is left out.
\<close>

definition globalError :: "nat \<Rightarrow> string \<Rightarrow> node" where
  "globalError i message =
     Element i ''DIV'' [(''key'', ''global-error'')] LcuUndefined None None
       [CharacterData (i + 1) TextNode message]"

definition updateMessage :: string where
  "updateMessage = ''There has been an update. Please reload the page.''"

text \<open>
  \<open>documentMount(content, event)\<close> with \<open>content\<close> already parsed and \<open>push\<close> saying
  whether \<open>event.detail.liveConnectionUpdate\<close> holds. \<open>None\<close> if the call throws.
\<close>

definition documentMount :: "differ \<Rightarrow> document \<Rightarrow> node \<Rightarrow> bool \<Rightarrow> document option" where
  "documentMount diff d content push =
     (let documentVersion = contentAttribute (documentQuerySelector metaVersion (documentElement d));
          contentVersion = contentAttribute (querySelector metaVersion content)
      in
      if documentVersion \<noteq> None \<and> contentVersion \<noteq> None \<and> documentVersion \<noteq> contentVersion then
        (case removeGlobalError (documentElement d) of
           None \<Rightarrow> None
         | Some root \<Rightarrow>
             (case insertIntoBody (globalError (nextNid d) updateMessage) root of
                None \<Rightarrow> None
              | Some root' \<Rightarrow>
                  Some (d\<lparr>documentElement := root', htmlIsModified := Some False,
                          nextNid := nextNid d + 2\<rparr>)))
      else
        (case morph diff [] push (documentElement d) content of
           None \<Rightarrow> None
         | Some (root, ms) \<Rightarrow>
             Some (d\<lparr>documentElement := root, mutations := mutations d @ ms,
                     dispatched := dispatched d @ [push]\<rparr>)))"

section \<open>Live session: one attempt of \<open>liveConnection\<close>\<close>

text \<open>
  The loop that reads the response body. \<open>records\<close> are the values the reader yields,
  each already parsed into a document, up to the point where the stream closes (the
  reader yields \<open>undefined\<close>) or is aborted (the read rejects, which the \<open>catch\<close> block
  turns into a return since \<open>connected\<close> is set). The result is the list of calls of
  \<open>documentMount\<close>, each with its content and the \<open>liveConnectionUpdate\<close> of its event,
  and the page; a call that throws ends the loop the same way and leaves the page
  \<open>None\<close>, as the model does not follow a \<open>morph\<close> that stops half-way.
\<close>

fun streamLoop ::
  "differ \<Rightarrow> node list \<Rightarrow> (node \<times> bool) list \<times> document \<Rightarrow> (node \<times> bool) list \<times> document option" where
  "streamLoop diff [] (calls, d) = (calls, Some d)"
| "streamLoop diff (responseText # rest) (calls, d) =
     (case documentMount diff d responseText True of
        None \<Rightarrow> (calls @ [(responseText, True)], None)
      | Some d' \<Rightarrow> streamLoop diff rest (calls @ [(responseText, True)], d'))"

text \<open>
  What the loop amounts to when no call throws: \<open>documentMount\<close> applied to the records
  one after another, each to the page the call before has left; \<open>None\<close> once a call has
  thrown.
\<close>

fun mountAll :: "differ \<Rightarrow> document \<Rightarrow> node list \<Rightarrow> document option" where
  "mountAll diff d [] = Some d"
| "mountAll diff d (content # rest) =
     (case documentMount diff d content True of
        None \<Rightarrow> None
      | Some d' \<Rightarrow> mountAll diff d' rest)"

text \<open>
  \<open>liveConnection.failedToConnectGlobalError?.remove()\<close> and the \<open>delete\<close> after it.
\<close>

definition removeFailedToConnect :: "document \<Rightarrow> document" where
  "removeFailedToConnect d =
     d\<lparr>documentElement :=
         (case failedToConnectGlobalError d of
            None \<Rightarrow> documentElement d
          | Some e \<Rightarrow> removeNode e (documentElement d)),
       failedToConnectGlobalError := None\<rparr>"

definition failureMessage :: "bool \<Rightarrow> string" where
  "failureMessage reload =
     (if reload then ''Reloading...''
      else ''Failed to connect. Please check your internet connection and try reloading the page.'')"

text \<open>
  The outcome of one attempt: whether the unit of work threw (which the background job
  sees), the calls of \<open>documentMount\<close>, the page and the value \<open>reloadOnConnect\<close> has
  afterwards.
\<close>

record attempt =
  threw :: bool
  documentMounts :: "(node \<times> bool) list"
  page :: "document option"
  reloadOnConnectAfter :: bool

text \<open>
  The unit of work of \<open>liveConnection\<close> from the point where \<open>fetch\<close> has answered with
  \<open>status\<close>; \<open>reload\<close> is the option of \<open>liveConnection\<close>, \<open>reloadOnConnect\<close> the variable
  set by the attempt before.
\<close>

definition connectionAttempt ::
  "differ \<Rightarrow> bool \<Rightarrow> bool \<Rightarrow> nat \<Rightarrow> node list \<Rightarrow> document \<Rightarrow> attempt" where
  "connectionAttempt diff reload reloadOnConnect status records d =
     (if status \<noteq> 200 then
        \<lparr>threw = True, documentMounts = [],
         page =
           (case removeGlobalError (documentElement d) of
              None \<Rightarrow> None
            | Some root \<Rightarrow>
                (case insertIntoBody (globalError (nextNid d) (failureMessage reload)) root of
                   None \<Rightarrow> None
                 | Some root' \<Rightarrow>
                     Some (d\<lparr>documentElement := root', nextNid := nextNid d + 2,
                             failedToConnectGlobalError := Some (nextNid d)\<rparr>))),
         reloadOnConnectAfter = reload\<rparr>
      else
        (let d1 = removeFailedToConnect d
         in
         if reloadOnConnect then
           \<lparr>threw = False, documentMounts = [],
            page = Some (d1\<lparr>htmlIsModified := Some False, reloads := reloads d1 + 1\<rparr>),
            reloadOnConnectAfter = reload\<rparr>
         else
           (case streamLoop diff records ([], d1) of (calls, p) \<Rightarrow>
              \<lparr>threw = False, documentMounts = calls, page = p, reloadOnConnectAfter = reload\<rparr>)))"

section \<open>A page for the examples\<close>

definition liveDocument :: document where
  "liveDocument =
     \<lparr>documentElement =
        el 0 ''HTML'' []
          [el 1 ''HEAD'' [] [el 2 ''META'' [(''name'', ''version''), (''content'', ''1'')] []],
           el 3 ''BODY'' [] [globalError 4 ''Failed to connect.'', el 6 ''P'' [] []]],
      htmlIsModified = Some True, dispatched = [], mutations = [], nextNid = 20,
      failedToConnectGlobalError = None, reloads = 0\<rparr>"

definition htmlPage :: "nat \<Rightarrow> string \<Rightarrow> string \<Rightarrow> node" where
  "htmlPage i version paragraph =
     el i ''HTML'' []
       [el (i + 1) ''HEAD'' [] [el (i + 2) ''META'' [(''name'', ''version''), (''content'', version)] []],
        el (i + 3) ''BODY'' [] [el (i + 4) ''P'' [(''class'', paragraph)] []]]"

definition headPage :: "nat \<Rightarrow> string \<Rightarrow> node" where
  "headPage i version =
     el i ''HTML'' []
       [el (i + 1) ''HEAD'' [] [el (i + 2) ''META'' [(''name'', ''version''), (''content'', version)] []]]"

section \<open>Properties of the scheduler\<close>

lemma job_inv_start: "job_inv backgroundJob"
  by (simp add: job_inv_def backgroundJob_def run_def)

lemma job_inv_step: "job_inv j \<Longrightarrow> job_inv (job_step j e)"
proof (cases e)
  case CallRun
  assume "job_inv j"
  then show ?thesis unfolding CallRun
    by (cases "state j")
      (auto simp: job_inv_def handle_run_def run_def clearTimeout_def
            split: list.splits option.splits if_splits prod.splits)
next
  case CallStop
  assume "job_inv j"
  then show ?thesis unfolding CallStop
    by (auto simp: job_inv_def handle_stop_def clearTimeout_def
          split: list.splits option.splits if_splits prod.splits)
next
  case JobCompletes
  assume "job_inv j"
  then show ?thesis unfolding JobCompletes
    by (auto simp: job_inv_def run_resume_def
          split: list.splits option.splits if_splits prod.splits)
next
  case JobFails
  assume "job_inv j"
  then show ?thesis unfolding JobFails
    by (auto simp: job_inv_def split: list.splits option.splits if_splits prod.splits)
next
  case (TimerFires t)
  assume "job_inv j"
  then show ?thesis unfolding TimerFires
    by (auto simp: job_inv_def run_def split: list.splits option.splits if_splits prod.splits)
qed

lemma job_inv_steps: "job_inv j \<Longrightarrow> job_inv (job_steps j es)"
  unfolding job_steps_def
  by (induction es arbitrary: j) (simp_all add: job_inv_step)

lemma job_inv_reachable: "job_inv (job_steps backgroundJob es)"
  by (rule job_inv_steps [OF job_inv_start])

lemma stopped_step:
  "state s = Stopped \<Longrightarrow> timers s = [] \<Longrightarrow>
   state (job_step s e) = Stopped \<and> timers (job_step s e) = [] \<and>
   executions (job_step s e) = executions s"
  by (cases e) (auto simp: handle_run_def handle_stop_def run_resume_def)

lemma stopped_steps:
  "state s = Stopped \<Longrightarrow> timers s = [] \<Longrightarrow>
   state (job_steps s es) = Stopped \<and> timers (job_steps s es) = [] \<and>
   executions (job_steps s es) = executions s"
  unfolding job_steps_def
proof (induction es arbitrary: s)
  case Nil
  then show ?case by simp
next
  case (Cons e es)
  from stopped_step [OF Cons.prems, of e] Cons.IH [of "job_step s e"]
  show ?case by simp
qed

lemma handle_stop_clears:
  "job_inv j \<Longrightarrow> state (handle_stop j) = Stopped \<and> timers (handle_stop j) = [] \<and>
     executions (handle_stop j) = executions j \<and> inFlight (handle_stop j) = inFlight j"
  by (auto simp: job_inv_def handle_stop_def clearTimeout_def split: list.splits option.splits)

lemma handle_run_marks:
  "state j = Running \<or> state j = RunningAndMarkedForRerun \<Longrightarrow>
   (handle_run ^^ Suc n) j = j\<lparr>state := RunningAndMarkedForRerun\<rparr>"
proof (induction n)
  case 0
  then show ?case by (auto simp: handle_run_def)
next
  case (Suc n)
  then show ?case by (auto simp: handle_run_def)
qed

text \<open>
  Claim C6. Take any state a job reaches from its start. If the unit of work is
  executing there and \<open>run()\<close> is called \<open>n \<ge> 1\<close> times, the calls only mark the job: no
  execution is added and no timer is set. When the execution completes, one timer with
  delay zero is set; when it fires the unit of work is invoked once more, nothing is
  marked any longer, and the completion of that extra execution sets the ordinary
  interval timer. If the job is sleeping there, \<open>run()\<close> leaves no timer pending and
  invokes the unit of work at once.
\<close>

theorem run_coalesces:
  "(state (job_steps backgroundJob es) = Running \<and> inFlight (job_steps backgroundJob es) = 1 \<and> 0 < n \<longrightarrow>
      (let j = job_steps backgroundJob es;
           m = (handle_run ^^ n) j;
           c = job_step m JobCompletes;
           f = job_step c (TimerFires (nextTimer j));
           g = job_step f JobCompletes
       in state m = RunningAndMarkedForRerun \<and> executions m = executions j \<and> timers m = [] \<and>
          state c = Sleeping \<and> timers c = [(nextTimer j, Zero)] \<and> executions c = executions j \<and>
          state f = Running \<and> timers f = [] \<and> inFlight f = 1 \<and>
          executions f = executions j + 1 \<and>
          state g = Sleeping \<and> timers g = [(nextTimer j + 1, AfterInterval)] \<and>
          executions g = executions j + 1)) \<and>
   (state (job_steps backgroundJob es) = Sleeping \<longrightarrow>
      (let j = job_steps backgroundJob es; r = handle_run j
       in state r = Running \<and> timers r = [] \<and> inFlight r = 1 \<and>
          executions r = executions j + 1))"
proof (intro conjI impI)
  let ?j = "job_steps backgroundJob es"
  assume a: "state ?j = Running \<and> inFlight ?j = 1 \<and> 0 < n"
  have inv: "job_inv ?j" by (rule job_inv_reachable)
  from a obtain k where n: "n = Suc k" by (cases n) auto
  have m: "(handle_run ^^ n) ?j = ?j\<lparr>state := RunningAndMarkedForRerun\<rparr>"
    unfolding n using a by (intro handle_run_marks) simp
  from inv a have t: "timers ?j = []"
    by (auto simp: job_inv_def split: list.splits)
  show "let j = ?j;
           m = (handle_run ^^ n) j;
           c = job_step m JobCompletes;
           f = job_step c (TimerFires (nextTimer j));
           g = job_step f JobCompletes
       in state m = RunningAndMarkedForRerun \<and> executions m = executions j \<and> timers m = [] \<and>
          state c = Sleeping \<and> timers c = [(nextTimer j, Zero)] \<and> executions c = executions j \<and>
          state f = Running \<and> timers f = [] \<and> inFlight f = 1 \<and>
          executions f = executions j + 1 \<and>
          state g = Sleeping \<and> timers g = [(nextTimer j + 1, AfterInterval)] \<and>
          executions g = executions j + 1"
    unfolding Let_def m using a t by (simp add: run_resume_def run_def)
next
  let ?j = "job_steps backgroundJob es"
  assume a: "state ?j = Sleeping"
  have inv: "job_inv ?j" by (rule job_inv_reachable)
  with a show "let j = ?j; r = handle_run j
       in state r = Running \<and> timers r = [] \<and> inFlight r = 1 \<and>
          executions r = executions j + 1"
    by (auto simp: Let_def job_inv_def handle_run_def run_def clearTimeout_def split: list.splits)
qed

theorem run_coalesces_witness:
  "state (job_steps backgroundJob []) = Running \<and> inFlight (job_steps backgroundJob []) = 1 \<and>
   executions (job_steps backgroundJob []) = 1 \<and>
   executions (job_steps backgroundJob [CallRun, CallRun, CallRun, JobCompletes, TimerFires 0]) = 2 \<and>
   state (job_steps backgroundJob [JobCompletes]) = Sleeping \<and>
   executions (handle_run (job_steps backgroundJob [JobCompletes])) = 2"
  using run_coalesces [of "[]" 3] run_coalesces [of "[JobCompletes]" 1]
  by (simp add: job_steps_def backgroundJob_def run_def run_resume_def handle_run_def
        clearTimeout_def Let_def numeral_3_eq_3)

text \<open>
  Claim C7. Take any state a job reaches from its start and call \<open>stop()\<close>. No timer is
  pending afterwards and what is in flight stays in flight. Whatever happens then
  (completion or failure of the execution in flight, calls of \<open>run()\<close> and \<open>stop()\<close>,
  timers), the job stays stopped, no timer is ever set, \<open>run()\<close> changes nothing, and the
  number of invocations of the unit of work stays what it was when \<open>stop()\<close> was called.
\<close>

theorem stopped_job_never_runs:
  "state (handle_stop (job_steps backgroundJob es)) = Stopped \<and>
   timers (handle_stop (job_steps backgroundJob es)) = [] \<and>
   inFlight (handle_stop (job_steps backgroundJob es)) = inFlight (job_steps backgroundJob es) \<and>
   handle_run (job_steps (handle_stop (job_steps backgroundJob es)) es') =
     job_steps (handle_stop (job_steps backgroundJob es)) es' \<and>
   timers (job_steps (handle_stop (job_steps backgroundJob es)) es') = [] \<and>
   state (job_steps (handle_stop (job_steps backgroundJob es)) es') = Stopped \<and>
   executions (job_steps (handle_stop (job_steps backgroundJob es)) es') =
     executions (job_steps backgroundJob es)"
proof -
  let ?j = "job_steps backgroundJob es"
  have s: "state (handle_stop ?j) = Stopped \<and> timers (handle_stop ?j) = [] \<and>
     executions (handle_stop ?j) = executions ?j \<and> inFlight (handle_stop ?j) = inFlight ?j"
    by (rule handle_stop_clears [OF job_inv_reachable])
  then have a: "state (job_steps (handle_stop ?j) es') = Stopped \<and>
     timers (job_steps (handle_stop ?j) es') = [] \<and>
     executions (job_steps (handle_stop ?j) es') = executions (handle_stop ?j)"
    using stopped_steps by blast
  then have "handle_run (job_steps (handle_stop ?j) es') = job_steps (handle_stop ?j) es'"
    by (simp add: handle_run_def)
  with s a show ?thesis by simp
qed

theorem stopped_job_never_runs_witness:
  "executions (job_steps backgroundJob [JobCompletes]) = 1 \<and>
   executions (job_steps (handle_stop (job_steps backgroundJob [JobCompletes]))
                 [TimerFires 0, CallRun, JobCompletes, CallRun]) = 1 \<and>
   inFlight (job_steps backgroundJob []) = 1 \<and>
   executions (job_steps (handle_stop (job_steps backgroundJob []))
                 [CallRun, JobCompletes, TimerFires 0, CallRun]) = 1"
  using stopped_job_never_runs [of "[JobCompletes]" "[TimerFires 0, CallRun, JobCompletes, CallRun]"]
        stopped_job_never_runs [of "[]" "[CallRun, JobCompletes, TimerFires 0, CallRun]"]
  by (simp add: job_steps_def backgroundJob_def run_def run_resume_def handle_stop_def
        handle_run_def clearTimeout_def)

section \<open>Properties of the navigation controller\<close>

text \<open>
  Claim C1, as the spec states it, at two clicks in a row on an unmodified page with no
  controller stored: the first click issues its fetch under controller \<open>0\<close>; the second
  click, made before anything has settled, returns at once. Controller \<open>0\<close> is not aborted,
  no fetch is issued and the stored controller is still \<open>0\<close>, so the second click is
  dropped and does not supersede.
\<close>

theorem liveNavigate_click_in_flight_dropped:
  "liveNavigate \<lparr>abortController = None, nextController = 0, inSubmit = False\<rparr>
       NoEvent False False
     = (\<lparr>abortController = Some 0, nextController = 1, inSubmit = False\<rparr>,
        [InsertProgressBar, StopLiveConnection, Fetch 0]) \<and>
   liveNavigate \<lparr>abortController = Some 0, nextController = 1, inSubmit = False\<rparr>
       NoEvent False False
     = (\<lparr>abortController = Some 0, nextController = 1, inSubmit = False\<rparr>, [])"
  by (simp add: liveNavigate_def)

text \<open>
  Claim C1, amended, in terms of the controller stored in \<open>liveNavigate.abortController\<close>,
  which is what the function tests. A call for a \<open>popstate\<close> event aborts the stored
  controller, if there is one, before anything else, and then issues its own fetch under
  a new controller. A call for a link click or a form submission while a controller is
  stored returns at once: no prompt, no abort, no fetch, the stored controller unchanged.
  With none stored it prompts exactly if \<open>inSubmit\<close> is unset and the document is
  modified, and issues its fetch exactly if it did not prompt or the prompt was
  confirmed. In every case a fetch that is issued runs under a new controller, which is
  the one stored afterwards, and a controller stored before has been aborted first; at
  most one controller is stored, the one of the last fetch issued, and the \<open>finally\<close>
  block of a call leaves none stored.
\<close>

theorem liveNavigate_supersede_rules:
  "(event = PopStateEvent \<longrightarrow>
      liveNavigate n event modified confirmed =
        (n\<lparr>abortController := Some (nextController n), nextController := nextController n + 1\<rparr>,
         (case abortController n of None \<Rightarrow> [] | Some c \<Rightarrow> [Abort c]) @
           [InsertProgressBar, StopLiveConnection, Fetch (nextController n)])) \<and>
   (event = NoEvent \<and> abortController n \<noteq> None \<longrightarrow>
      liveNavigate n event modified confirmed = (n, [])) \<and>
   (event = NoEvent \<and> abortController n = None \<longrightarrow>
      (Confirm \<in> set (snd (liveNavigate n event modified confirmed))
         \<longleftrightarrow> \<not> inSubmit n \<and> modified) \<and>
      (Fetch (nextController n) \<in> set (snd (liveNavigate n event modified confirmed))
         \<longleftrightarrow> inSubmit n \<or> \<not> modified \<or> confirmed)) \<and>
   (\<forall>k. Fetch k \<in> set (snd (liveNavigate n event modified confirmed)) \<longrightarrow>
      k = nextController n \<and>
      abortController (fst (liveNavigate n event modified confirmed)) = Some k \<and>
      (\<forall>c. abortController n = Some c \<longrightarrow>
         event = PopStateEvent \<and> hd (snd (liveNavigate n event modified confirmed)) = Abort c)) \<and>
   ((\<forall>k. Fetch k \<notin> set (snd (liveNavigate n event modified confirmed))) \<longrightarrow>
      fst (liveNavigate n event modified confirmed) = n) \<and>
   abortController (liveNavigate_finally (fst (liveNavigate n event modified confirmed))) = None \<and>
   nextController (liveNavigate_finally n) = nextController n \<and>
   inSubmit (liveNavigate_finally n) = inSubmit n"
  by (cases event; cases "abortController n")
     (auto simp: liveNavigate_def liveNavigate_finally_def Let_def)

theorem liveNavigate_supersede_rules_witness:
  "liveNavigate \<lparr>abortController = Some 0, nextController = 1, inSubmit = False\<rparr>
       PopStateEvent True False
     = (\<lparr>abortController = Some 1, nextController = 2, inSubmit = False\<rparr>,
        [Abort 0, InsertProgressBar, StopLiveConnection, Fetch 1]) \<and>
   liveNavigate \<lparr>abortController = Some 0, nextController = 1, inSubmit = False\<rparr>
       NoEvent True True
     = (\<lparr>abortController = Some 0, nextController = 1, inSubmit = False\<rparr>, []) \<and>
   Fetch 0 \<in> set (snd (liveNavigate \<lparr>abortController = None, nextController = 0, inSubmit = False\<rparr>
       NoEvent True True)) \<and>
   abortController (fst (liveNavigate \<lparr>abortController = None, nextController = 0, inSubmit = False\<rparr>
       NoEvent True True)) = Some 0 \<and>
   abortController (liveNavigate_finally
     (fst (liveNavigate \<lparr>abortController = None, nextController = 0, inSubmit = False\<rparr>
       NoEvent True True))) = None"
  using liveNavigate_supersede_rules
          [of PopStateEvent "\<lparr>abortController = Some 0, nextController = 1, inSubmit = False\<rparr>" True False]
        liveNavigate_supersede_rules
          [of NoEvent "\<lparr>abortController = Some 0, nextController = 1, inSubmit = False\<rparr>" True True]
        liveNavigate_supersede_rules
          [of NoEvent "\<lparr>abortController = None, nextController = 0, inSubmit = False\<rparr>" True True]
  by simp

section \<open>Properties of the reconciler\<close>

subsection \<open>Auxiliary facts\<close>

lemma getAttribute_removeAttribute:
  "getAttribute (removeAttribute a attrs) b = (if b = a then None else getAttribute attrs b)"
  by (induction attrs) (auto simp: getAttribute_def removeAttribute_def)

lemma getAttribute_setAttribute:
  "getAttribute (setAttribute a v attrs) b = (if b = a then Some v else getAttribute attrs b)"
  by (induction attrs) (auto simp: getAttribute_def)

lemma getAttribute_None_iff: "getAttribute attrs a = None \<longleftrightarrow> a \<notin> set (getAttributeNames attrs)"
  by (simp add: getAttribute_def getAttributeNames_def map_of_eq_None_iff)

lemma set_newSet: "set (newSet xs) = set xs"
  by (simp add: newSet_def)

lemma morphAttribute_get:
  "getAttribute (fst (morphAttribute push chain i toAttrs (attrs, ms) n)) a =
     (if a = n \<and> \<not> (push \<and> protected a \<and> \<not> list_ex (\<lambda>element. has element a) chain)
      then getAttribute toAttrs a else getAttribute attrs a)"
  by (auto simp: morphAttribute_def getAttribute_removeAttribute getAttribute_setAttribute)

lemma morphAttributes_fold_get:
  "getAttribute (fst (foldl (morphAttribute push chain i toAttrs) (attrs, ms) ns)) a =
     (if a \<in> set ns \<and> \<not> (push \<and> protected a \<and> \<not> list_ex (\<lambda>element. has element a) chain)
      then getAttribute toAttrs a else getAttribute attrs a)"
proof (induction ns arbitrary: attrs ms)
  case Nil
  show ?case by simp
next
  case (Cons n ns)
  obtain attrs1 ms1 where step: "morphAttribute push chain i toAttrs (attrs, ms) n = (attrs1, ms1)"
    by (cases "morphAttribute push chain i toAttrs (attrs, ms) n")
  have one: "getAttribute attrs1 a =
     (if a = n \<and> \<not> (push \<and> protected a \<and> \<not> list_ex (\<lambda>element. has element a) chain)
      then getAttribute toAttrs a else getAttribute attrs a)"
    using morphAttribute_get [of push chain i toAttrs attrs ms n a] step by simp
  show ?case
    using Cons.IH [of attrs1 ms1] one step by auto
qed

lemma morphAttributes_get:
  "getAttribute (fst (morphAttributes push chain i attrs toAttrs)) a =
     (if push \<and> protected a \<and> \<not> list_ex (\<lambda>element. has element a) chain
      then getAttribute attrs a else getAttribute toAttrs a)"
proof (cases "a \<in> set (getAttributeNames attrs) \<union> set (getAttributeNames toAttrs)")
  case True
  then show ?thesis
    unfolding morphAttributes_def morphAttributes_fold_get
    by (simp add: set_newSet)
next
  case False
  then have "getAttribute attrs a = None" "getAttribute toAttrs a = None"
    by (simp_all add: getAttribute_None_iff)
  then show ?thesis
    unfolding morphAttributes_def morphAttributes_fold_get
    by (simp add: set_newSet)
qed

lemma morphProperties_value:
  "fst (fst (morphProperties push chain (Element i tag attrs l v c cs) to)) =
     (if matchesInputTextarea tag \<and>
         \<not> (push \<and> \<not> list_ex (\<lambda>element. has element ''value'') chain) \<and>
         valueProperty (Element i tag attrs l v c cs) \<noteq> valueProperty to
      then Some (jsString (valueProperty to)) else v)"
  by (auto simp: Let_def split: prod.splits)

lemma morphProperties_checked:
  "snd (fst (morphProperties push chain (Element i tag attrs l v c cs) to)) =
     (if tag = ''INPUT'' \<and>
         \<not> (push \<and> \<not> list_ex (\<lambda>element. has element ''checked'') chain) \<and>
         checkedProperty (Element i tag attrs l v c cs) \<noteq> checkedProperty to
      then Some (jsBoolean (checkedProperty to)) else c)"
  by (auto simp: Let_def matchesInputTextarea_def split: prod.splits)

declare morphProperties.simps [simp del]

lemma morph_Element_Some:
  assumes "morph diff ancestors push (Element i tag attrs l v c fcs)
             (Element i' tag' attrs' l' v' c' tcs) = Some (from', ms)"
    and "\<not> (push \<and> l = LcuFalse)"
  obtains attrs1 ms1 v1 c1 ms2 cs ms3 toMorph cs' ms4 where
    "morphAttributes push (parents l ancestors) i attrs attrs' = (attrs1, ms1)"
    "morphProperties push (parents l ancestors) (Element i tag attrs1 l v c fcs)
       (Element i' tag' attrs' l' v' c' tcs) = ((v1, c1), ms2)"
    "reconcile diff push i fcs tcs = Some (cs, ms3, toMorph)"
    "morphAll diff (parents l ancestors) push tcs toMorph (cs, []) = Some (cs', ms4)"
    "from' = Element i tag attrs1 l v1 c1 cs'"
    "ms = ms1 @ ms2 @ ms3 @ ms4"
  using assms
  by (auto split: prod.splits option.splits if_splits)

lemma morph_Element_result:
  assumes "morph diff ancestors push (Element i tag attrs l v c fcs)
             (Element i' tag' attrs' l' v' c' tcs) = Some (from', ms)"
    and "\<not> (push \<and> l = LcuFalse)"
  shows "\<exists>cs'. from' =
           Element i tag (fst (morphAttributes push (parents l ancestors) i attrs attrs')) l
             (fst (fst (morphProperties push (parents l ancestors)
                (Element i tag (fst (morphAttributes push (parents l ancestors) i attrs attrs')) l v c fcs)
                (Element i' tag' attrs' l' v' c' tcs))))
             (snd (fst (morphProperties push (parents l ancestors)
                (Element i tag (fst (morphAttributes push (parents l ancestors) i attrs attrs')) l v c fcs)
                (Element i' tag' attrs' l' v' c' tcs))))
             cs'"
proof -
  from assms obtain attrs1 ms1 v1 c1 ms2 cs ms3 toMorph cs' ms4 where
    a: "morphAttributes push (parents l ancestors) i attrs attrs' = (attrs1, ms1)" and
    p: "morphProperties push (parents l ancestors) (Element i tag attrs1 l v c fcs)
       (Element i' tag' attrs' l' v' c' tcs) = ((v1, c1), ms2)" and
    f: "from' = Element i tag attrs1 l v1 c1 cs'"
    by (rule morph_Element_Some)
  have "fst (morphAttributes push (parents l ancestors) i attrs attrs') = attrs1"
    using a by simp
  moreover have "fst (fst (morphProperties push (parents l ancestors) (Element i tag attrs1 l v c fcs)
       (Element i' tag' attrs' l' v' c' tcs))) = v1"
      "snd (fst (morphProperties push (parents l ancestors) (Element i tag attrs1 l v c fcs)
       (Element i' tag' attrs' l' v' c' tcs))) = c1"
    using p by simp_all
  ultimately show ?thesis using f by simp
qed

lemma nid_in_nids: "nid n \<in> set (nids n)"
  by (cases n) auto

lemma distinct_concat_nids:
  "distinct (concat (map nids cs)) \<Longrightarrow> distinct (map nid cs) \<and> (\<forall>c \<in> set cs. distinct (nids c))"
proof (induction cs)
  case Nil
  show ?case by simp
next
  case (Cons c cs)
  then have d: "distinct (nids c)" "distinct (concat (map nids cs))"
    and dis: "set (nids c) \<inter> (\<Union>x\<in>set cs. set (nids x)) = {}"
    by auto
  have "nid c \<notin> nid ` set cs"
  proof
    assume "nid c \<in> nid ` set cs"
    then obtain x where x: "x \<in> set cs" "nid x = nid c" by auto
    then have "nid c \<in> set (nids x)" using nid_in_nids [of x] by simp
    with x dis nid_in_nids [of c] show False by auto
  qed
  with Cons.IH [OF d(2)] d(1) show ?case by simp
qed

lemma key_clone: "key (clone fresh n) = key n"
  by (cases n rule: nodeType.cases) auto

lemma isElement_clone: "isElement (clone fresh n) = isElement n"
  by (cases n) auto

lemma morphAttributes_same_fold:
  "\<forall>a \<in> set ns. getAttribute attrs a \<noteq> None \<Longrightarrow>
   foldl (morphAttribute push chain i attrs) (attrs, ms) ns = (attrs, ms)"
  by (induction ns) (auto simp: morphAttribute_def)

lemma morphAttributes_same: "morphAttributes push chain i attrs attrs = (attrs, [])"
  unfolding morphAttributes_def
  by (rule morphAttributes_same_fold) (simp add: set_newSet getAttribute_None_iff)

lemma childTextContent_clone: "childTextContent (map (clone fresh) cs) = childTextContent cs"
  by (induction cs rule: childTextContent.induct) auto

lemma valueProperty_clone: "valueProperty (clone fresh n) = valueProperty n"
  by (cases n) (auto simp: childTextContent_clone split: option.splits)

lemma checkedProperty_clone: "checkedProperty (clone fresh n) = checkedProperty n"
  by (cases n) auto

lemma morphProperties_same:
  "valueProperty to = valueProperty (Element i tag attrs l v c cs) \<Longrightarrow>
   checkedProperty to = checkedProperty (Element i tag attrs l v c cs) \<Longrightarrow>
   morphProperties push chain (Element i tag attrs l v c cs) to = ((v, c), [])"
  by (simp add: morphProperties.simps Let_def)

lemma pairMatched_in_range:
  "\<forall>off \<in> set offs. pfe + off < length fcs \<Longrightarrow>
   pairMatched fcs pfe pte offs = Some (map (\<lambda>off. (fcs ! (pfe + off), pte + off)) offs)"
  by (induction offs) (auto simp: nth_opt_def)

lemma reconcile_same:
  assumes "diff (map key fcs) (map key fcs) = []" and "map key tcs = map key fcs"
  shows "reconcile diff push p fcs tcs = Some (fcs, [], map (\<lambda>j. (fcs ! j, j)) [0..<length fcs])"
proof -
  have len: "length tcs = length fcs" using assms(2) by (metis length_map)
  have pm: "pairMatched fcs 0 0 [0..<length fcs] = Some (map (\<lambda>off. (fcs ! (0 + off), 0 + off)) [0..<length fcs])"
    by (rule pairMatched_in_range) simp
  show ?thesis
    using pm by (simp add: reconcile_def candidates_def assms len)
qed

lemma replaceChild_same:
  "distinct (map nid cs) \<Longrightarrow> f \<in> set cs \<Longrightarrow> replaceChild cs f f = cs"
  unfolding replaceChild_def
  by (rule map_idI) (auto simp: distinct_map inj_on_def)

lemma morphAll_same:
  assumes ih: "\<And>f. f \<in> set fcs \<Longrightarrow> isElement f \<Longrightarrow> morph diff chain False f (clone fresh f) = Some (f, [])"
    and d: "distinct (map nid fcs)"
  shows "\<forall>j \<in> set js. j < length fcs \<Longrightarrow>
     morphAll diff chain False (map (clone fresh) fcs) (map (\<lambda>j. (fcs ! j, j)) js) (fcs, ms) = Some (fcs, ms)"
proof (induction js arbitrary: ms)
  case Nil
  show ?case by simp
next
  case (Cons j js)
  then have j: "j < length fcs" by simp
  then have mem: "fcs ! j \<in> set fcs" by simp
  have nth: "nth_opt (map (clone fresh) fcs) j = Some (clone fresh (fcs ! j))"
    using j by (simp add: nth_opt_def)
  show ?case
  proof (cases "isElement (fcs ! j)")
    case True
    from ih [OF mem True] nth True replaceChild_same [OF d mem] Cons show ?thesis
      by simp
  next
    case False
    with Cons show ?thesis by simp
  qed
qed

lemma queue_Nil [simp]: "queue [] k = []"
  by (simp add: queue_def)

lemma queue_Cons [simp]: "queue ((k', q) # Q) k = (if k = k' then q else queue Q k)"
  by (simp add: queue_def)

lemma candidates_Nil [simp]: "candidates [] = []"
  by (simp add: candidates_def)

lemma candidates_Cons [simp]: "candidates ((k', q) # Q) = q @ candidates Q"
  by (simp add: candidates_def)

lemma queues_ok_Nil [simp]: "queues_ok []"
  by (simp add: queues_ok_def)

lemma queues_ok_Cons [simp]:
  "queues_ok ((k', q) # Q) \<longleftrightarrow> k' \<notin> fst ` set Q \<and> (\<forall>m \<in> set q. key m = k') \<and> queues_ok Q"
  by (auto simp: queues_ok_def)

lemma queue_enqueue: "queue (enqueue k n Q) k' = (if k' = k then queue Q k @ [n] else queue Q k')"
  by (induction k n Q rule: enqueue.induct) auto

lemma fst_set_enqueue: "fst ` set (enqueue k n Q) = insert k (fst ` set Q)"
  by (induction k n Q rule: enqueue.induct) auto

lemma queues_ok_enqueue: "queues_ok Q \<Longrightarrow> queues_ok (enqueue (key n) n Q)"
  by (induction "key n" n Q rule: enqueue.induct) (auto simp: fst_set_enqueue)

lemma set_candidates_enqueue: "set (candidates (enqueue k n Q)) = insert n (set (candidates Q))"
  by (induction k n Q rule: enqueue.induct) auto

lemma map_fst_shift: "map fst (snd (shift k Q)) = map fst Q"
  by (induction k Q rule: shift.induct) (auto split: list.splits prod.splits)

lemma fst_set_shift: "fst ` set (snd (shift k Q)) = fst ` set Q"
  using map_fst_shift [of k Q] by (metis list.set_map)

lemma shift_queue:
  "queue Q k = (case fst (shift k Q) of None \<Rightarrow> [] | Some n \<Rightarrow> [n]) @ queue (snd (shift k Q)) k"
  by (induction k Q rule: shift.induct) (auto split: list.splits prod.splits)

lemma shift_queue_other: "k' \<noteq> k \<Longrightarrow> queue (snd (shift k Q)) k' = queue Q k'"
  by (induction k Q rule: shift.induct) (auto split: list.splits prod.splits)

lemma shift_None: "fst (shift k Q) = None \<Longrightarrow> snd (shift k Q) = Q \<and> queue Q k = []"
  by (induction k Q rule: shift.induct) (auto split: list.splits prod.splits if_splits)

lemma shift_candidates: "set (candidates (snd (shift k Q))) \<subseteq> set (candidates Q)"
  by (induction k Q rule: shift.induct) (auto split: list.splits prod.splits)

lemma shift_Some: "fst (shift k Q) = Some n \<Longrightarrow> n \<in> set (candidates Q)"
  by (induction k Q rule: shift.induct) (auto split: list.splits prod.splits if_splits)

lemma queues_ok_shift: "queues_ok Q \<Longrightarrow> queues_ok (snd (shift k Q))"
proof (induction k Q rule: shift.induct)
  case (1 k)
  then show ?case by simp
next
  case (2 k k' q Q)
  show ?case
  proof (cases "k' = k")
    case True
    with 2 show ?thesis by (cases q) auto
  next
    case False
    from False 2 have ok: "queues_ok (snd (shift k Q))" by simp
    from False 2 fst_set_shift [of k Q] have "k' \<notin> fst ` set (snd (shift k Q))" by simp
    with False 2 ok show ?thesis
      by (cases "shift k Q") simp
  qed
qed

lemma queue_subset_candidates: "set (queue Q k) \<subseteq> set (candidates Q)"
proof (induction Q)
  case Nil
  show ?case by simp
next
  case (Cons a Q)
  then show ?case by (cases a) auto
qed

lemma queue_absent: "k \<notin> fst ` set Q \<Longrightarrow> queue Q k = []"
proof (induction Q)
  case Nil
  show ?case by simp
next
  case (Cons a Q)
  then show ?case by (cases a) auto
qed

lemma candidates_key: "queues_ok Q \<Longrightarrow> m \<in> set (candidates Q) \<Longrightarrow> m \<in> set (queue Q (key m))"
proof (induction Q)
  case Nil
  then show ?case by simp
next
  case (Cons a Q)
  obtain k q where a: "a = (k, q)" by (cases a)
  show ?case
  proof (cases "m \<in> set q")
    case True
    with Cons.prems a show ?thesis by auto
  next
    case False
    with Cons.prems a have m: "m \<in> set (candidates Q)" and ok: "queues_ok Q"
      and k: "k \<notin> fst ` set Q" by auto
    from Cons.IH [OF ok m] have q: "m \<in> set (queue Q (key m))" .
    with queue_absent [of "key m" Q] k have "key m \<noteq> k" by auto
    with q a show ?thesis by simp
  qed
qed

lemma queue_key: "queues_ok Q \<Longrightarrow> n \<in> set (queue Q k) \<Longrightarrow> key n = k"
proof (induction Q)
  case Nil
  then show ?case by simp
next
  case (Cons a Q)
  then show ?case by (cases a) (auto split: if_splits)
qed

lemma collectNodes_queue:
  "collectNodes push fcs is Q = Some Q' \<Longrightarrow> queues_ok Q \<Longrightarrow>
     queues_ok Q' \<and>
     (\<forall>k. queue Q' k = queue Q k @ filter (\<lambda>n. key n = k \<and> removable push n) (map ((!) fcs) is)) \<and>
     set (candidates Q') \<subseteq> set (candidates Q) \<union> {n \<in> set fcs. removable push n}"
proof (induction "is" arbitrary: Q)
  case Nil
  then show ?case by simp
next
  case (Cons i "is")
  from Cons.prems(1) obtain n where n: "nth_opt fcs i = Some n"
    by (auto split: option.splits)
  then have i: "i < length fcs" "fcs ! i = n"
    by (auto simp: nth_opt_def split: if_splits)
  show ?case
  proof (cases "removable push n")
    case False
    with Cons.prems n have "collectNodes push fcs is Q = Some Q'"
      by (auto simp: removable_def)
    from Cons.IH [OF this Cons.prems(2)] False i show ?thesis by simp
  next
    case True
    with Cons.prems n have c: "collectNodes push fcs is (enqueue (key n) n Q) = Some Q'"
      by (auto simp: removable_def)
    have ok: "queues_ok (enqueue (key n) n Q)"
      by (rule queues_ok_enqueue [OF Cons.prems(2)])
    from Cons.IH [OF c ok] True i show ?thesis
      by (auto simp: queue_enqueue set_candidates_enqueue)
  qed
qed

lemma collect_queue:
  "collect push fcs hunks Q = Some Q' \<Longrightarrow> queues_ok Q \<Longrightarrow>
     queues_ok Q' \<and>
     (\<forall>k. queue Q' k = queue Q k @ filter (\<lambda>n. key n = k \<and> removable push n) (map ((!) fcs) (gapIndices hunks))) \<and>
     set (candidates Q') \<subseteq> set (candidates Q) \<union> {n \<in> set fcs. removable push n}"
proof (induction hunks arbitrary: Q)
  case Nil
  then show ?case by (simp add: gapIndices_def)
next
  case (Cons h hunks)
  obtain fs fe ts te where h: "h = (fs, fe, ts, te)" by (cases h)
  from Cons.prems(1) h obtain Q1 where
    c1: "collectNodes push fcs [fs..<fe] Q = Some Q1" and c2: "collect push fcs hunks Q1 = Some Q'"
    by (auto split: option.splits)
  note a = collectNodes_queue [OF c1 Cons.prems(2)]
  from a have ok1: "queues_ok Q1" by simp
  note b = Cons.IH [OF c2 ok1]
  have g: "gapIndices (h # hunks) = [fs..<fe] @ gapIndices hunks"
    by (simp add: gapIndices_def h)
  from a b show ?case unfolding g by auto
qed

lemma resolved_step_reuse:
  assumes ok: "queues_ok Q" and sub: "set (candidates Q) \<subseteq> set fcs" and dis: "set fcs \<inter> set tcs = {}"
    and t: "nth_opt tcs i = Some t" and s: "shift (key t) Q = (Some n, Q1)"
  shows "resolved fcs tcs Q Q1 [(n, a)] [(n, i)]"
proof -
  from s have f: "fst (shift (key t) Q) = Some n" and q1: "Q1 = snd (shift (key t) Q)" by simp_all
  from shift_Some [OF f] sub have nf: "n \<in> set fcs" by auto
  from shift_queue [of Q "key t"] f q1 have qq: "queue Q (key t) = n # queue Q1 (key t)" by simp
  then have "n \<in> set (queue Q (key t))" by simp
  from queue_key [OF ok this] have kn: "key n = key t" .
  from nf dis have nt: "n \<notin> set tcs" by auto
  have "queue Q k = filter (\<lambda>n. n \<in> set fcs \<and> key n = k) (map fst [(n, a)]) @ queue Q1 k" for k
  proof (cases "k = key t")
    case True
    with qq nf kn show ?thesis by simp
  next
    case False
    with shift_queue_other [of k "key t" Q] q1 kn show ?thesis by simp
  qed
  with nf nt t kn show ?thesis
    unfolding resolved_def by auto
qed

lemma resolved_step_raw:
  assumes ok: "queues_ok Q" and dis: "set fcs \<inter> set tcs = {}"
    and t: "nth_opt tcs i = Some t" and s: "shift (key t) Q = (None, Q1)"
  shows "resolved fcs tcs Q Q1 [(t, a)] [] \<and> Q1 = Q"
proof -
  from s have f: "fst (shift (key t) Q) = None" and q1: "Q1 = snd (shift (key t) Q)" by simp_all
  from shift_None [OF f] q1 have eq: "Q1 = Q" and e: "queue Q (key t) = []" by simp_all
  from t have tt: "t \<in> set tcs" by (auto simp: nth_opt_def split: if_splits)
  with dis have tf: "t \<notin> set fcs" by auto
  have "\<forall>m \<in> set (candidates Q). key m \<noteq> key t"
  proof
    fix m assume "m \<in> set (candidates Q)"
    from candidates_key [OF ok this] e show "key m \<noteq> key t" by auto
  qed
  with eq tt tf show ?thesis
    unfolding resolved_def by auto
qed

lemma resolved_trans:
  assumes a: "resolved fcs tcs Q Q1 new1 m1" and b: "resolved fcs tcs Q1 Q' new2 m2"
    and sub: "set (candidates Q') \<subseteq> set (candidates Q1)"
  shows "resolved fcs tcs Q Q' (new1 @ new2) (m1 @ m2)"
proof -
  have q: "\<forall>k. queue Q k = filter (\<lambda>n. n \<in> set fcs \<and> key n = k) (map fst (new1 @ new2)) @ queue Q' k"
    using a b unfolding resolved_def by simp
  have mem: "\<forall>(n, x) \<in> set (new1 @ new2). n \<in> set fcs \<or> n \<in> set tcs"
    using a b unfolding resolved_def by auto
  have c1: "\<forall>(n, x) \<in> set new1. n \<in> set tcs \<longrightarrow> (\<forall>m \<in> set (candidates Q'). key m \<noteq> key n)"
    using a sub unfolding resolved_def by fastforce
  have c2: "\<forall>(n, x) \<in> set new2. n \<in> set tcs \<longrightarrow> (\<forall>m \<in> set (candidates Q'). key m \<noteq> key n)"
    using b unfolding resolved_def by blast
  have c: "\<forall>(n, x) \<in> set (new1 @ new2). n \<in> set tcs \<longrightarrow> (\<forall>m \<in> set (candidates Q'). key m \<noteq> key n)"
    using c1 c2 by auto
  have d1: "\<forall>(n, x) \<in> set new1. n \<in> set fcs \<longrightarrow>
         (\<exists>j t. (n, j) \<in> set (m1 @ m2) \<and> nth_opt tcs j = Some t \<and> key t = key n)"
    using a unfolding resolved_def by fastforce
  have d2: "\<forall>(n, x) \<in> set new2. n \<in> set fcs \<longrightarrow>
         (\<exists>j t. (n, j) \<in> set (m1 @ m2) \<and> nth_opt tcs j = Some t \<and> key t = key n)"
    using b unfolding resolved_def by fastforce
  have d: "\<forall>(n, x) \<in> set (new1 @ new2). n \<in> set fcs \<longrightarrow>
         (\<exists>j t. (n, j) \<in> set (m1 @ m2) \<and> nth_opt tcs j = Some t \<and> key t = key n)"
    using d1 d2 by auto
  show ?thesis
    unfolding resolved_def using q mem c d by blast
qed

lemma resolved_more_toMorph:
  "resolved fcs tcs Q Q' new m \<Longrightarrow> resolved fcs tcs Q Q' new (ps @ m)"
  unfolding resolved_def by fastforce

lemma resolved_refl: "resolved fcs tcs Q Q [] []"
  by (simp add: resolved_def)

lemma resolveNodes_resolved:
  "resolveNodes fcs tcs fe is (Q, toAdd, toMorph) = Some (Q', toAdd', toMorph') \<Longrightarrow>
   queues_ok Q \<Longrightarrow> set (candidates Q) \<subseteq> set fcs \<Longrightarrow> set fcs \<inter> set tcs = {} \<Longrightarrow>
   \<exists>new newM. toAdd' = toAdd @ new \<and> toMorph' = toMorph @ newM \<and>
      resolved fcs tcs Q Q' new newM \<and> queues_ok Q' \<and>
      set (candidates Q') \<subseteq> set (candidates Q)"
proof (induction "is" arbitrary: Q toAdd toMorph)
  case Nil
  then show ?case using resolved_refl by auto
next
  case (Cons i "is")
  from Cons.prems(1) obtain t where t: "nth_opt tcs i = Some t"
    by (auto split: option.splits)
  obtain r Q1 where s: "shift (key t) Q = (r, Q1)" by (cases "shift (key t) Q")
  then have q1: "Q1 = snd (shift (key t) Q)" by simp
  have ok1: "queues_ok Q1" unfolding q1 by (rule queues_ok_shift [OF Cons.prems(2)])
  have sub1: "set (candidates Q1) \<subseteq> set (candidates Q)" unfolding q1 by (rule shift_candidates)
  with Cons.prems(3) have sub1': "set (candidates Q1) \<subseteq> set fcs" by auto
  let ?a = "map_option nid (nth_opt fcs fe)"
  show ?case
  proof (cases r)
    case None
    with Cons.prems(1) t s have
      rest: "resolveNodes fcs tcs fe is (Q1, toAdd @ [(t, ?a)], toMorph) = Some (Q', toAdd', toMorph')"
      by simp
    from Cons.IH [OF rest ok1 sub1' Cons.prems(4)] obtain new newM where
      n: "toAdd' = (toAdd @ [(t, ?a)]) @ new" "toMorph' = toMorph @ newM"
         "resolved fcs tcs Q1 Q' new newM" "queues_ok Q'"
         "set (candidates Q') \<subseteq> set (candidates Q1)"
      by blast
    from s None have s': "shift (key t) Q = (None, Q1)" by simp
    from resolved_step_raw [OF Cons.prems(2) Cons.prems(4) t s', of ?a]
    have st: "resolved fcs tcs Q Q1 [(t, ?a)] []" by blast
    from resolved_trans [OF st n(3) n(5)]
    have "resolved fcs tcs Q Q' ((t, ?a) # new) newM" by simp
    with n sub1 show ?thesis by auto
  next
    case (Some f)
    with Cons.prems(1) t s have
      rest: "resolveNodes fcs tcs fe is (Q1, toAdd @ [(f, ?a)], toMorph @ [(f, i)]) = Some (Q', toAdd', toMorph')"
      by simp
    from Cons.IH [OF rest ok1 sub1' Cons.prems(4)] obtain new newM where
      n: "toAdd' = (toAdd @ [(f, ?a)]) @ new" "toMorph' = (toMorph @ [(f, i)]) @ newM"
         "resolved fcs tcs Q1 Q' new newM" "queues_ok Q'"
         "set (candidates Q') \<subseteq> set (candidates Q1)"
      by blast
    from s Some have s': "shift (key t) Q = (Some f, Q1)" by simp
    from resolved_step_reuse [OF Cons.prems(2) Cons.prems(3) Cons.prems(4) t s', of ?a]
    have st: "resolved fcs tcs Q Q1 [(f, ?a)] [(f, i)]" .
    from resolved_trans [OF st n(3) n(5)]
    have "resolved fcs tcs Q Q' ((f, ?a) # new) ((f, i) # newM)" by simp
    with n sub1 show ?thesis by auto
  qed
qed

lemma resolve_resolved:
  "resolve fcs tcs prev hs (Q, toAdd, toMorph) = Some (Q', toAdd', toMorph') \<Longrightarrow>
   queues_ok Q \<Longrightarrow> set (candidates Q) \<subseteq> set fcs \<Longrightarrow> set fcs \<inter> set tcs = {} \<Longrightarrow>
   \<exists>new newM. toAdd' = toAdd @ new \<and> toMorph' = toMorph @ newM \<and>
      resolved fcs tcs Q Q' new newM \<and> queues_ok Q' \<and>
      set (candidates Q') \<subseteq> set (candidates Q)"
proof (induction hs arbitrary: prev Q toAdd toMorph)
  case Nil
  then show ?case using resolved_refl by auto
next
  case (Cons h hs)
  obtain pfs pfe pts pte where p: "prev = (pfs, pfe, pts, pte)" by (cases prev)
  obtain fs fe ts te where h: "h = (fs, fe, ts, te)" by (cases h)
  from Cons.prems(1) p h obtain ps Q1 toAdd1 toMorph1 where
    pm: "pairMatched fcs pfe pte [0..<fs - pfe] = Some ps" and
    rn: "resolveNodes fcs tcs fe [ts..<te] (Q, toAdd, toMorph @ ps) = Some (Q1, toAdd1, toMorph1)" and
    rest: "resolve fcs tcs (fs, fe, ts, te) hs (Q1, toAdd1, toMorph1) = Some (Q', toAdd', toMorph')"
    by (auto split: option.splits)
  from resolveNodes_resolved [OF rn Cons.prems(2) Cons.prems(3) Cons.prems(4)] obtain new1 m1 where
    a: "toAdd1 = toAdd @ new1" "toMorph1 = (toMorph @ ps) @ m1" "resolved fcs tcs Q Q1 new1 m1"
       "queues_ok Q1" "set (candidates Q1) \<subseteq> set (candidates Q)"
    by blast
  from a(5) Cons.prems(3) have sub1: "set (candidates Q1) \<subseteq> set fcs" by auto
  from Cons.IH [OF rest a(4) sub1 Cons.prems(4)] obtain new2 m2 where
    b: "toAdd' = toAdd1 @ new2" "toMorph' = toMorph1 @ m2" "resolved fcs tcs Q1 Q' new2 m2"
       "queues_ok Q'" "set (candidates Q') \<subseteq> set (candidates Q1)"
    by blast
  from resolved_trans [OF a(3) b(3) b(5)] have "resolved fcs tcs Q Q' (new1 @ new2) (m1 @ m2)" .
  from resolved_more_toMorph [OF this, of ps]
  have "resolved fcs tcs Q Q' (new1 @ new2) (ps @ m1 @ m2)" .
  with a b show ?case by auto
qed

lemma removeChildren_result:
  "removeChildren p ns (cs, ms) = Some (cs', ms') \<Longrightarrow>
     cs' = filter (\<lambda>c. nid c \<notin> nid ` set ns) cs \<and> ms' = ms @ map (\<lambda>n. RemoveChild p (nid n)) ns"
proof (induction ns arbitrary: cs ms)
  case Nil
  then show ?case by simp
next
  case (Cons n ns)
  from Cons.prems obtain cs1 where
    r: "removeChild cs n = Some cs1" and
    rest: "removeChildren p ns (cs1, ms @ [RemoveChild p (nid n)]) = Some (cs', ms')"
    by (auto split: option.splits)
  from r have cs1: "cs1 = filter (\<lambda>c. nid c \<noteq> nid n) cs"
    by (auto simp: removeChild_def split: if_splits)
  from Cons.IH [OF rest] cs1 show ?case
    by (auto intro: filter_cong)
qed

lemma set_takeWhile_dropWhile:
  "set (takeWhile P xs @ n # dropWhile P xs) = insert n (set xs)"
proof -
  have "set (takeWhile P xs) \<union> set (dropWhile P xs) = set xs"
    by (metis set_append takeWhile_dropWhile_id)
  then show ?thesis by auto
qed

lemma set_insertBefore:
  assumes "insertBefore cs n a = Some cs'"
  shows "set cs' = insert n {c \<in> set cs. nid c \<noteq> nid n}"
proof (cases a)
  case None
  with assms show ?thesis by (auto simp: insertBefore_def)
next
  case (Some r)
  let ?cs = "filter (\<lambda>c. nid c \<noteq> nid n) cs"
  let ?ref = "if r = nid n then nextSibling cs r else Some r"
  from assms Some have eq: "cs' = (case ?ref of None \<Rightarrow> ?cs @ [n]
      | Some x \<Rightarrow> takeWhile (\<lambda>c. nid c \<noteq> x) ?cs @ n # dropWhile (\<lambda>c. nid c \<noteq> x) ?cs)"
    by (auto simp: insertBefore_def Let_def split: if_splits option.splits)
  have "set cs' = insert n (set ?cs)"
  proof (cases ?ref)
    case None
    with eq show ?thesis by simp
  next
    case (Some x)
    with eq have "cs' = takeWhile (\<lambda>c. nid c \<noteq> x) ?cs @ n # dropWhile (\<lambda>c. nid c \<noteq> x) ?cs"
      by simp
    then show ?thesis by (simp only: set_takeWhile_dropWhile)
  qed
  then show ?thesis by auto
qed

lemma insertNodes_result:
  "insertNodes p toAdd (cs, ms) = Some (cs', ms') \<Longrightarrow>
     ms' = ms @ map (\<lambda>(n, a). InsertBefore p (nid n) a) toAdd \<and>
     (\<forall>c \<in> set cs. nid c \<notin> nid ` fst ` set toAdd \<longrightarrow> c \<in> set cs')"
proof (induction toAdd arbitrary: cs ms)
  case Nil
  then show ?case by simp
next
  case (Cons x toAdd)
  obtain n a where x: "x = (n, a)" by (cases x)
  from Cons.prems x obtain cs1 where
    i: "insertBefore cs n a = Some cs1" and
    rest: "insertNodes p toAdd (cs1, ms @ [InsertBefore p (nid n) a]) = Some (cs', ms')"
    by (auto split: option.splits)
  from set_insertBefore [OF i] have s: "set cs1 = insert n {c \<in> set cs. nid c \<noteq> nid n}" .
  from Cons.IH [OF rest] have
    m: "ms' = (ms @ [InsertBefore p (nid n) a]) @ map (\<lambda>(n, a). InsertBefore p (nid n) a) toAdd" and
    k: "\<forall>c \<in> set cs1. nid c \<notin> nid ` fst ` set toAdd \<longrightarrow> c \<in> set cs'"
    by simp_all
  have "\<forall>c \<in> set cs. nid c \<notin> nid ` fst ` set (x # toAdd) \<longrightarrow> c \<in> set cs'"
  proof (intro ballI impI)
    fix c assume c: "c \<in> set cs" and nc: "nid c \<notin> nid ` fst ` set (x # toAdd)"
    from nc x have "nid c \<noteq> nid n" "nid c \<notin> nid ` fst ` set toAdd" by auto
    with c s k show "c \<in> set cs'" by auto
  qed
  with m x show ?case by simp
qed

lemma resolveNodes_sources:
  "resolveNodes fcs tcs fe is (Q, toAdd, toMorph) = Some (Q', toAdd', toMorph') \<Longrightarrow>
     fst ` set toAdd' \<subseteq> fst ` set toAdd \<union> set (candidates Q) \<union> set tcs \<and>
     fst ` set toMorph' \<subseteq> fst ` set toMorph \<union> set (candidates Q) \<and>
     set (candidates Q') \<subseteq> set (candidates Q)"
proof (induction "is" arbitrary: Q toAdd toMorph)
  case Nil
  then show ?case by auto
next
  case (Cons i "is")
  from Cons.prems(1) obtain t where t: "nth_opt tcs i = Some t"
    by (auto split: option.splits)
  then have tt: "t \<in> set tcs" by (auto simp: nth_opt_def split: if_splits)
  obtain r Q1 where s: "shift (key t) Q = (r, Q1)" by (cases "shift (key t) Q")
  then have q1: "Q1 = snd (shift (key t) Q)" and r: "r = fst (shift (key t) Q)" by simp_all
  have sub1: "set (candidates Q1) \<subseteq> set (candidates Q)" unfolding q1 by (rule shift_candidates)
  let ?a = "map_option nid (nth_opt fcs fe)"
  show ?case
  proof (cases r)
    case None
    with Cons.prems(1) t s have
      rest: "resolveNodes fcs tcs fe is (Q1, toAdd @ [(t, ?a)], toMorph) = Some (Q', toAdd', toMorph')"
      by simp
    note ih = Cons.IH [OF rest]
    have a: "fst ` set (toAdd @ [(t, ?a)]) = insert t (fst ` set toAdd)" by simp
    from ih have 1: "fst ` set toAdd' \<subseteq> insert t (fst ` set toAdd) \<union> set (candidates Q1) \<union> set tcs"
      unfolding a by blast
    from ih have 2: "fst ` set toMorph' \<subseteq> fst ` set toMorph \<union> set (candidates Q1)" by blast
    from ih have 3: "set (candidates Q') \<subseteq> set (candidates Q1)" by blast
    from 1 2 3 sub1 tt show ?thesis by blast
  next
    case (Some f)
    with Cons.prems(1) t s have
      rest: "resolveNodes fcs tcs fe is (Q1, toAdd @ [(f, ?a)], toMorph @ [(f, i)]) = Some (Q', toAdd', toMorph')"
      by simp
    from Some r have "fst (shift (key t) Q) = Some f" by simp
    from shift_Some [OF this] have fc: "f \<in> set (candidates Q)" .
    note ih = Cons.IH [OF rest]
    have a: "fst ` set (toAdd @ [(f, ?a)]) = insert f (fst ` set toAdd)" by simp
    have b: "fst ` set (toMorph @ [(f, i)]) = insert f (fst ` set toMorph)" by simp
    from ih have 1: "fst ` set toAdd' \<subseteq> insert f (fst ` set toAdd) \<union> set (candidates Q1) \<union> set tcs"
      unfolding a by blast
    from ih have 2: "fst ` set toMorph' \<subseteq> insert f (fst ` set toMorph) \<union> set (candidates Q1)"
      unfolding b by blast
    from ih have 3: "set (candidates Q') \<subseteq> set (candidates Q1)" by blast
    from 1 2 3 sub1 fc show ?thesis by blast
  qed
qed

lemma pairMatched_sources:
  "pairMatched fcs pfe pte offs = Some ps \<Longrightarrow> fst ` set ps \<subseteq> set fcs"
proof (induction offs arbitrary: ps)
  case Nil
  then show ?case by simp
next
  case (Cons off offs)
  from Cons.prems obtain f ps1 where
    f: "nth_opt fcs (pfe + off) = Some f" and p1: "pairMatched fcs pfe pte offs = Some ps1"
    and ps: "ps = (f, pte + off) # ps1"
    by (auto split: option.splits)
  from f have "f \<in> set fcs" by (auto simp: nth_opt_def split: if_splits)
  with Cons.IH [OF p1] ps show ?case by simp
qed

lemma resolve_sources:
  "resolve fcs tcs prev hs (Q, toAdd, toMorph) = Some (Q', toAdd', toMorph') \<Longrightarrow>
     fst ` set toAdd' \<subseteq> fst ` set toAdd \<union> set (candidates Q) \<union> set tcs \<and>
     fst ` set toMorph' \<subseteq> fst ` set toMorph \<union> set (candidates Q) \<union> set fcs \<and>
     set (candidates Q') \<subseteq> set (candidates Q)"
proof (induction hs arbitrary: prev Q toAdd toMorph)
  case Nil
  then show ?case by auto
next
  case (Cons h hs)
  obtain pfs pfe pts pte where p: "prev = (pfs, pfe, pts, pte)" by (cases prev)
  obtain fs fe ts te where h: "h = (fs, fe, ts, te)" by (cases h)
  from Cons.prems(1) p h obtain ps Q1 toAdd1 toMorph1 where
    pm: "pairMatched fcs pfe pte [0..<fs - pfe] = Some ps" and
    rn: "resolveNodes fcs tcs fe [ts..<te] (Q, toAdd, toMorph @ ps) = Some (Q1, toAdd1, toMorph1)" and
    rest: "resolve fcs tcs (fs, fe, ts, te) hs (Q1, toAdd1, toMorph1) = Some (Q', toAdd', toMorph')"
    by (auto split: option.splits)
  note a = resolveNodes_sources [OF rn]
  note b = Cons.IH [OF rest]
  note c = pairMatched_sources [OF pm]
  have m: "fst ` set (toMorph @ ps) = fst ` set toMorph \<union> fst ` set ps" by auto
  from a have a1: "fst ` set toAdd1 \<subseteq> fst ` set toAdd \<union> set (candidates Q) \<union> set tcs" by blast
  from a c have a2: "fst ` set toMorph1 \<subseteq> fst ` set toMorph \<union> set (candidates Q) \<union> set fcs"
    unfolding m by blast
  from a have a3: "set (candidates Q1) \<subseteq> set (candidates Q)" by blast
  from b have b1: "fst ` set toAdd' \<subseteq> fst ` set toAdd1 \<union> set (candidates Q1) \<union> set tcs" by blast
  from b have b2: "fst ` set toMorph' \<subseteq> fst ` set toMorph1 \<union> set (candidates Q1) \<union> set fcs" by blast
  from b have b3: "set (candidates Q') \<subseteq> set (candidates Q1)" by blast
  from a1 a3 b1 have 1: "fst ` set toAdd' \<subseteq> fst ` set toAdd \<union> set (candidates Q) \<union> set tcs" by blast
  from a2 a3 b2 have 2: "fst ` set toMorph' \<subseteq> fst ` set toMorph \<union> set (candidates Q) \<union> set fcs" by blast
  from a3 b3 have 3: "set (candidates Q') \<subseteq> set (candidates Q)" by blast
  from 1 2 3 show ?case by blast
qed

lemma reconcile_Some:
  assumes "reconcile diff push p fcs tcs = Some (cs', ms, toMorph)"
  shows "\<exists>Q Q' toAdd cs rm.
     collect push fcs (diff (map key fcs) (map key tcs)) [] = Some Q \<and>
     resolve fcs tcs (0, 0, 0, 0)
       (diff (map key fcs) (map key tcs) @ [(length fcs, length fcs, length tcs, length tcs)])
       (Q, [], []) = Some (Q', toAdd, toMorph) \<and>
     removeChildren p (candidates Q') (fcs, []) = Some (cs, rm) \<and>
     insertNodes p toAdd (cs, rm) = Some (cs', ms)"
  using assms
  by (auto simp: reconcile_def Let_def split: option.splits prod.splits)

lemma morph_pinned: "lcu_of n = LcuFalse \<Longrightarrow> morph diff chain True n t = Some (n, [])"
  by (cases n; cases t) auto

lemma reconcile_keeps_pinned:
  assumes r: "reconcile diff True p fcs tcs = Some (cs', ms, toMorph)"
    and c: "child \<in> set fcs" and l: "lcu_of child = LcuFalse"
    and d: "distinct (map nid (fcs @ tcs))"
  shows "child \<in> set cs' \<and> RemoveChild p (nid child) \<notin> set ms \<and>
         (\<forall>a. InsertBefore p (nid child) a \<notin> set ms) \<and> fst ` set toMorph \<subseteq> set fcs"
proof -
  from reconcile_Some [OF r] obtain Q Q' toAdd cs rm where
    co: "collect True fcs (diff (map key fcs) (map key tcs)) [] = Some Q" and
    re: "resolve fcs tcs (0, 0, 0, 0)
       (diff (map key fcs) (map key tcs) @ [(length fcs, length fcs, length tcs, length tcs)])
       (Q, [], []) = Some (Q', toAdd, toMorph)" and
    rc: "removeChildren p (candidates Q') (fcs, []) = Some (cs, rm)" and
    ins: "insertNodes p toAdd (cs, rm) = Some (cs', ms)"
    by blast
  from collect_queue [OF co] have cq: "set (candidates Q) \<subseteq> {n \<in> set fcs. removable True n}"
    by simp
  from l have nr: "\<not> removable True child" by (simp add: removable_def)
  from resolve_sources [OF re] have
    ta: "fst ` set toAdd \<subseteq> set (candidates Q) \<union> set tcs" and
    tm: "fst ` set toMorph \<subseteq> set (candidates Q) \<union> set fcs" and
    sub: "set (candidates Q') \<subseteq> set (candidates Q)"
    by auto
  from d have inj: "inj_on nid (set fcs)" and dis: "nid ` set fcs \<inter> nid ` set tcs = {}"
    by (auto simp: distinct_map)
  have notc: "nid n \<noteq> nid child" if "n \<in> set (candidates Q)" for n
  proof
    assume e: "nid n = nid child"
    from that cq have "n \<in> set fcs" "removable True n" by auto
    with e c inj have "n = child" by (auto dest: inj_onD)
    with \<open>removable True n\<close> nr show False by simp
  qed
  have nott: "nid n \<noteq> nid child" if "n \<in> set tcs" for n
    using that c dis by (metis disjoint_iff imageI)
  have nrm: "nid child \<notin> nid ` set (candidates Q')"
    using notc sub by (metis image_iff subsetD)
  have nad: "nid child \<notin> nid ` fst ` set toAdd"
  proof
    assume "nid child \<in> nid ` fst ` set toAdd"
    then obtain x where x: "x \<in> set toAdd" "nid (fst x) = nid child" by auto
    with ta have "fst x \<in> set (candidates Q) \<or> fst x \<in> set tcs" by auto
    with notc nott x show False by auto
  qed
  from removeChildren_result [OF rc] have
    cs: "cs = filter (\<lambda>c. nid c \<notin> nid ` set (candidates Q')) fcs" and
    rm: "rm = map (\<lambda>n. RemoveChild p (nid n)) (candidates Q')"
    by simp_all
  from cs c nrm have ccs: "child \<in> set cs" by simp
  from insertNodes_result [OF ins] have
    ms: "ms = rm @ map (\<lambda>(n, a). InsertBefore p (nid n) a) toAdd" and
    keep: "\<forall>c \<in> set cs. nid c \<notin> nid ` fst ` set toAdd \<longrightarrow> c \<in> set cs'"
    by simp_all
  from keep ccs nad have 1: "child \<in> set cs'" by blast
  have 2: "RemoveChild p (nid child) \<notin> set ms"
    unfolding ms rm using nrm by auto
  have 3: "\<forall>a. InsertBefore p (nid child) a \<notin> set ms"
    unfolding ms rm using nad by (auto simp: image_iff)
  from tm cq have 4: "fst ` set toMorph \<subseteq> set fcs" by auto
  from 1 2 3 4 show ?thesis by blast
qed

lemma morphAll_keeps:
  assumes "morphAll diff chain True tcs toMorph (cs, ms) = Some (cs', ms')"
    and "child \<in> set cs" and "lcu_of child = LcuFalse"
    and "\<forall>f \<in> fst ` set toMorph. nid f = nid child \<longrightarrow> f = child"
  shows "child \<in> set cs'"
  using assms
proof (induction toMorph arbitrary: cs ms)
  case Nil
  then show ?case by simp
next
  case (Cons x toMorph)
  obtain f j where x: "x = (f, j)" by (cases x)
  from Cons.prems(4) x have same: "nid f = nid child \<longrightarrow> f = child"
    and rest4: "\<forall>f \<in> fst ` set toMorph. nid f = nid child \<longrightarrow> f = child"
    by auto
  have "\<exists>cs1 ms1. morphAll diff chain True tcs toMorph (cs1, ms1) = Some (cs', ms') \<and>
      (cs1 = cs \<or> (\<exists>t f' m. morph diff chain True f t = Some (f', m) \<and> cs1 = replaceChild cs f f'))"
  proof (cases "isElement f")
    case False
    with Cons.prems(1) x show ?thesis by auto
  next
    case True
    show ?thesis
    proof (cases "nth_opt tcs j")
      case None
      with True Cons.prems(1) x show ?thesis by (auto split: if_splits)
    next
      case (Some t)
      show ?thesis
      proof (cases "morph diff chain True f t")
        case None
        with Some True Cons.prems(1) x show ?thesis by simp
      next
        case (Some r)
        obtain f' m where r: "r = (f', m)" by (cases r)
        with Some \<open>nth_opt tcs j = Some t\<close> True Cons.prems(1) x
        have "morphAll diff chain True tcs toMorph (replaceChild cs f f', ms @ m) = Some (cs', ms')"
          by simp
        with Some r show ?thesis by blast
      qed
    qed
  qed
  then obtain cs1 ms1 where
    step: "morphAll diff chain True tcs toMorph (cs1, ms1) = Some (cs', ms')" and
    cs1: "cs1 = cs \<or> (\<exists>t f' m. morph diff chain True f t = Some (f', m) \<and> cs1 = replaceChild cs f f')"
    by blast
  have "child \<in> set cs1"
  proof -
    from cs1 show ?thesis
    proof
      assume "cs1 = cs"
      with Cons.prems(2) show ?thesis by simp
    next
      assume "\<exists>t f' m. morph diff chain True f t = Some (f', m) \<and> cs1 = replaceChild cs f f'"
      then obtain t f' m where m: "morph diff chain True f t = Some (f', m)"
        and r: "cs1 = replaceChild cs f f'" by blast
      show ?thesis
      proof (cases "nid f = nid child")
        case True
        with same have "f = child" by simp
        with m morph_pinned [OF Cons.prems(3), of diff chain t] have "f' = child" by simp
        with r Cons.prems(2) \<open>f = child\<close> show ?thesis
          by (auto simp: replaceChild_def)
      next
        case False
        with r Cons.prems(2) show ?thesis
          by (auto simp: replaceChild_def)
      qed
    qed
  qed
  from Cons.IH [OF step this Cons.prems(3) rest4] show ?case .
qed

lemma lcsDiff_same: "lcsDiff ks ks = []"
proof -
  have e: "editScript ks ks = replicate (length ks) Keep"
    by (induction ks) auto
  have h: "hunksOf i j None (replicate n Keep) = []" for i j n
    by (induction n arbitrary: i j) auto
  show ?thesis by (simp add: lcsDiff_def e h)
qed

lemma parsedText_cases:
  assumes "parsedText cs"
  obtains "cs = []" | i s where "cs = [CharacterData i TextNode s]" "s \<noteq> []"
  using assms by (cases cs rule: parsedText.cases) auto

lemma parsedText_keys:
  assumes "parsedText fcs" and "parsedText tcs" and "childTextContent fcs = childTextContent tcs"
  shows "map key fcs = map key tcs"
  using assms(1)
proof (cases rule: parsedText_cases)
  case 1
  from assms(2) show ?thesis
    by (cases rule: parsedText_cases) (use 1 assms(3) in auto)
next
  case (2 i s)
  from assms(2) show ?thesis
    by (cases rule: parsedText_cases) (use 2 assms(3) in auto)
qed

lemma morphAll_no_elements:
  "\<forall>f \<in> fst ` set toMorph. \<not> isElement f \<Longrightarrow>
   morphAll diff chain push tcs toMorph (cs, ms) = Some (cs, ms)"
  by (induction toMorph) auto

lemma parsedText_no_elements: "parsedText cs \<Longrightarrow> n \<in> set cs \<Longrightarrow> \<not> isElement n"
  by (erule parsedText_cases) auto

lemma morph_value_updated:
  assumes m: "morph diff ancestors push (Element i tag attrs l v c fcs)
             (Element i' tag' attrs' l' v' c' tcs) = Some (from', ms)"
    and ns: "\<not> (push \<and> l = LcuFalse)"
    and upd: "\<not> (push \<and> \<not> list_ex (\<lambda>element. has element ''value'') (parents l ancestors))"
  shows "tag = ''INPUT'' \<Longrightarrow>
           valueProperty from' = Some (jsString (valueProperty (Element i' tag' attrs' l' v' c' tcs)))"
    and "tag = ''TEXTAREA'' \<Longrightarrow>
         v \<noteq> None \<or> Some (childTextContent fcs) \<noteq> valueProperty (Element i' tag' attrs' l' v' c' tcs) \<Longrightarrow>
           valueProperty from' = Some (jsString (valueProperty (Element i' tag' attrs' l' v' c' tcs)))"
    and "tag = ''TEXTAREA'' \<Longrightarrow> tag' = ''TEXTAREA'' \<Longrightarrow> v' = None \<Longrightarrow>
         parsedText fcs \<Longrightarrow> parsedText tcs \<Longrightarrow> \<forall>ks. diff ks ks = [] \<Longrightarrow>
           valueProperty from' = valueProperty (Element i' tag' attrs' l' v' c' tcs)"
proof -
  let ?to = "Element i' tag' attrs' l' v' c' tcs"
  from m ns obtain attrs1 ms1 v1 c1 ms2 cs ms3 toMorph cs' ms4 where
    p: "morphProperties push (parents l ancestors) (Element i tag attrs1 l v c fcs) ?to = ((v1, c1), ms2)" and
    r: "reconcile diff push i fcs tcs = Some (cs, ms3, toMorph)" and
    a: "morphAll diff (parents l ancestors) push tcs toMorph (cs, []) = Some (cs', ms4)" and
    f: "from' = Element i tag attrs1 l v1 c1 cs'"
    by (rule morph_Element_Some)
  have v1: "v1 = (if matchesInputTextarea tag \<and>
                     valueProperty (Element i tag attrs1 l v c fcs) \<noteq> valueProperty ?to
                  then Some (jsString (valueProperty ?to)) else v)"
    using morphProperties_value [of push "parents l ancestors" i tag attrs1 l v c fcs ?to] p upd
    by auto
  show "valueProperty from' = Some (jsString (valueProperty ?to))" if "tag = ''INPUT''"
  proof (cases "valueProperty (Element i tag attrs1 l v c fcs) = valueProperty ?to")
    case True
    with v1 have "v1 = v" by simp
    with f that have "valueProperty from' = valueProperty (Element i tag attrs1 l v c fcs)" by simp
    moreover from that have "valueProperty (Element i tag attrs1 l v c fcs) \<noteq> None" by simp
    ultimately show ?thesis using True by (cases "valueProperty ?to") auto
  next
    case False
    with v1 that have "v1 = Some (jsString (valueProperty ?to))"
      by (simp add: matchesInputTextarea_def)
    with f that show ?thesis by simp
  qed
  show "valueProperty from' = Some (jsString (valueProperty ?to))"
    if t: "tag = ''TEXTAREA''" and d: "v \<noteq> None \<or> Some (childTextContent fcs) \<noteq> valueProperty ?to"
  proof (cases "valueProperty (Element i tag attrs1 l v c fcs) = valueProperty ?to")
    case True
    with v1 have e: "v1 = v" by simp
    from True t d obtain s where s: "v = Some s" by (cases v) auto
    with True t have "valueProperty ?to = Some s" by simp
    with f t e s show ?thesis by simp
  next
    case False
    with v1 t have "v1 = Some (jsString (valueProperty ?to))"
      by (simp add: matchesInputTextarea_def)
    with f t show ?thesis by simp
  qed
  show "valueProperty from' = valueProperty ?to"
    if t: "tag = ''TEXTAREA''" and t': "tag' = ''TEXTAREA''" and u: "v' = None"
      and pf: "parsedText fcs" and pt: "parsedText tcs" and same: "\<forall>ks. diff ks ks = []"
  proof -
    from t' u have tv: "valueProperty ?to = Some (childTextContent tcs)" by simp
    show ?thesis
    proof (cases "valueProperty (Element i tag attrs1 l v c fcs) = valueProperty ?to")
      case False
      with v1 t have "v1 = Some (jsString (valueProperty ?to))"
        by (simp add: matchesInputTextarea_def)
      with f t tv show ?thesis by simp
    next
      case True
      with v1 have e: "v1 = v" by simp
      show ?thesis
      proof (cases v)
        case (Some s)
        with True t tv f e show ?thesis by simp
      next
        case None
        with True t tv have teq: "childTextContent fcs = childTextContent tcs" by simp
        from parsedText_keys [OF pf pt teq] have keys: "map key tcs = map key fcs" by simp
        from same have dd: "diff (map key fcs) (map key fcs) = []" by simp
        from reconcile_same [where diff = diff and fcs = fcs and tcs = tcs and push = push and p = i,
            OF dd keys] r have
          cs: "cs = fcs" and tm: "toMorph = map (\<lambda>j. (fcs ! j, j)) [0..<length fcs]"
          by simp_all
        have "\<forall>f \<in> fst ` set toMorph. \<not> isElement f"
          unfolding tm using parsedText_no_elements [OF pf] by auto
        from morphAll_no_elements [OF this, of diff "parents l ancestors" push tcs cs "[]"] a cs
        have "cs' = fcs" by simp
        with f t e None teq tv show ?thesis by simp
      qed
    qed
  qed
qed

lemma morph_checked_updated:
  assumes m: "morph diff ancestors push (Element i tag attrs l v c fcs)
             (Element i' tag' attrs' l' v' c' tcs) = Some (from', ms)"
    and ns: "\<not> (push \<and> l = LcuFalse)"
    and upd: "\<not> (push \<and> \<not> list_ex (\<lambda>element. has element ''checked'') (parents l ancestors))"
    and t: "tag = ''INPUT''"
  shows "checkedProperty from' = Some (jsBoolean (checkedProperty (Element i' tag' attrs' l' v' c' tcs)))"
proof -
  let ?to = "Element i' tag' attrs' l' v' c' tcs"
  from m ns obtain attrs1 ms1 v1 c1 ms2 cs' where
    p: "morphProperties push (parents l ancestors) (Element i tag attrs1 l v c fcs) ?to = ((v1, c1), ms2)" and
    f: "from' = Element i tag attrs1 l v1 c1 cs'"
    by (rule morph_Element_Some)
  have c1: "c1 = (if checkedProperty (Element i tag attrs1 l v c fcs) \<noteq> checkedProperty ?to
                  then Some (jsBoolean (checkedProperty ?to)) else c)"
    using morphProperties_checked [of push "parents l ancestors" i tag attrs1 l v c fcs ?to] p upd t
    by auto
  show ?thesis
  proof (cases "checkedProperty (Element i tag attrs1 l v c fcs) = checkedProperty ?to")
    case True
    with c1 have "c1 = c" by simp
    with f t have "checkedProperty from' = checkedProperty (Element i tag attrs1 l v c fcs)" by simp
    moreover from t have "checkedProperty (Element i tag attrs1 l v c fcs) \<noteq> None" by simp
    ultimately show ?thesis using True by (cases "checkedProperty ?to") auto
  next
    case False
    with c1 have "c1 = Some (jsBoolean (checkedProperty ?to))" by simp
    with f t show ?thesis by simp
  qed
qed

lemma morph_protected_kept:
  assumes m: "morph diff ancestors True (Element i tag attrs l v c fcs) to = Some (from', ms)"
  shows "protected a \<Longrightarrow> \<not> list_ex (\<lambda>element. has element a) (parents l ancestors) \<Longrightarrow>
           getAttribute (attributes from') a = getAttribute attrs a"
    and "\<not> list_ex (\<lambda>element. has element ''value'') (parents l ancestors) \<Longrightarrow> valueSet from' = v"
    and "\<not> list_ex (\<lambda>element. has element ''checked'') (parents l ancestors) \<Longrightarrow> checkedSet from' = c"
proof -
  show "getAttribute (attributes from') a = getAttribute attrs a"
    if "protected a" "\<not> list_ex (\<lambda>element. has element a) (parents l ancestors)"
  proof (cases "l = LcuFalse")
    case True
    with m show ?thesis by (cases to) auto
  next
    case False
    with m obtain i' tag' attrs' l' v' c' tcs where "to = Element i' tag' attrs' l' v' c' tcs"
      by (cases to) auto
    with m False morph_Element_result [of diff ancestors True i tag attrs l v c fcs i' tag' attrs' l' v' c' tcs from' ms]
    show ?thesis using that by (auto simp: morphAttributes_get)
  qed
  show "valueSet from' = v"
    if "\<not> list_ex (\<lambda>element. has element ''value'') (parents l ancestors)"
  proof (cases "l = LcuFalse")
    case True
    with m show ?thesis by (cases to) auto
  next
    case False
    with m obtain i' tag' attrs' l' v' c' tcs where "to = Element i' tag' attrs' l' v' c' tcs"
      by (cases to) auto
    with m False morph_Element_result [of diff ancestors True i tag attrs l v c fcs i' tag' attrs' l' v' c' tcs from' ms]
    show ?thesis using that by (auto simp: morphProperties_value)
  qed
  show "checkedSet from' = c"
    if "\<not> list_ex (\<lambda>element. has element ''checked'') (parents l ancestors)"
  proof (cases "l = LcuFalse")
    case True
    with m show ?thesis by (cases to) auto
  next
    case False
    with m obtain i' tag' attrs' l' v' c' tcs where "to = Element i' tag' attrs' l' v' c' tcs"
      by (cases to) auto
    with m False morph_Element_result [of diff ancestors True i tag attrs l v c fcs i' tag' attrs' l' v' c' tcs from' ms]
    show ?thesis using that by (auto simp: morphProperties_checked)
  qed
qed

lemma morph_keeps_shape:
  assumes "morph diff ancestors push (Element i tag attrs l v c fcs) to = Some (from', ms)"
  shows "\<exists>attrs1 v1 c1 cs'. from' = Element i tag attrs1 l v1 c1 cs'"
proof (cases "push \<and> l = LcuFalse")
  case True
  with assms show ?thesis by (cases to) auto
next
  case False
  with assms obtain i' tag' attrs' l' v' c' tcs where "to = Element i' tag' attrs' l' v' c' tcs"
    by (cases to) auto
  with assms False morph_Element_result [of diff ancestors push i tag attrs l v c fcs i' tag' attrs' l' v' c' tcs from' ms]
  show ?thesis by blast
qed

lemma morphProperties_clone:
  "morphProperties push chain (Element i tag attrs l v c cs)
     (Element j tag attrs l' v c (map (clone fresh) cs)) = ((v, c), [])"
  by (rule morphProperties_same) (simp_all add: childTextContent_clone split: option.splits)

subsection \<open>Every target child of a gap is placed\<close>

lemma resolveNodes_toMorph_prefix:
  "resolveNodes fcs tcs fe js (Q, toAdd, toMorph) = Some (Q', toAdd', toMorph') \<Longrightarrow>
     \<exists>newM. toMorph' = toMorph @ newM"
proof (induction js arbitrary: Q toAdd toMorph)
  case Nil
  then show ?case by simp
next
  case (Cons j js)
  from Cons.prems obtain t where t: "nth_opt tcs j = Some t"
    by (auto split: option.splits)
  obtain r Q1 where s: "shift (key t) Q = (r, Q1)" by (cases "shift (key t) Q")
  show ?case
  proof (cases r)
    case None
    with Cons.prems t s have
      "resolveNodes fcs tcs fe js (Q1, toAdd @ [(t, map_option nid (nth_opt fcs fe))], toMorph)
         = Some (Q', toAdd', toMorph')" by simp
    from Cons.IH [OF this] show ?thesis .
  next
    case (Some n)
    with Cons.prems t s have
      "resolveNodes fcs tcs fe js (Q1, toAdd @ [(n, map_option nid (nth_opt fcs fe))], toMorph @ [(n, j)])
         = Some (Q', toAdd', toMorph')" by simp
    from Cons.IH [OF this] show ?thesis by auto
  qed
qed

lemma resolve_toMorph_prefix:
  "resolve fcs tcs prev hs (Q, toAdd, toMorph) = Some (Q', toAdd', toMorph') \<Longrightarrow>
     \<exists>newM. toMorph' = toMorph @ newM"
proof (induction fcs tcs prev hs "(Q, toAdd, toMorph)" arbitrary: Q toAdd toMorph rule: resolve.induct)
  case (1 fcs tcs previous r)
  then show ?case by simp
next
  case (2 fcs tcs pfs pfe pts pte fs fe ts te hs Q toAdd toMorph)
  from "2.prems" obtain ps where ps: "pairMatched fcs pfe pte [0..<fs - pfe] = Some ps"
    by (auto split: option.splits)
  with "2.prems" obtain Q1 toAdd1 toMorph1 where
    rn: "resolveNodes fcs tcs fe [ts..<te] (Q, toAdd, toMorph @ ps) = Some (Q1, toAdd1, toMorph1)" and
    rs: "resolve fcs tcs (fs, fe, ts, te) hs (Q1, toAdd1, toMorph1) = Some (Q', toAdd', toMorph')"
    by (auto split: option.splits)
  from resolveNodes_toMorph_prefix [OF rn] obtain n1 where "toMorph1 = (toMorph @ ps) @ n1" by blast
  moreover from "2.hyps" [OF ps rn rs] obtain n2 where "toMorph' = toMorph1 @ n2"
    by auto
  ultimately show ?case by simp
qed

lemma fills_mono:
  "fills fcs tcs toMorph entry slot \<Longrightarrow> set toMorph \<subseteq> set toMorph' \<Longrightarrow>
   fills fcs tcs toMorph' entry slot"
  by (auto simp: fills_def split: option.splits)

lemma resolveNodes_fills:
  "resolveNodes fcs tcs fe js (Q, toAdd, toMorph) = Some (Q', toAdd', toMorph') \<Longrightarrow>
   queues_ok Q \<Longrightarrow> set (candidates Q) \<subseteq> set fcs \<Longrightarrow>
   \<exists>new. toAdd' = toAdd @ new \<and>
      list_all2 (fills fcs tcs toMorph') new (map (\<lambda>j. (j, map_option nid (nth_opt fcs fe))) js)"
proof (induction js arbitrary: Q toAdd toMorph)
  case Nil
  then show ?case by simp
next
  case (Cons j js)
  let ?a = "map_option nid (nth_opt fcs fe)"
  from Cons.prems(1) obtain t where t: "nth_opt tcs j = Some t"
    by (auto split: option.splits)
  obtain r Q1 where s: "shift (key t) Q = (r, Q1)" by (cases "shift (key t) Q")
  from s have Q1: "Q1 = snd (shift (key t) Q)" and r: "r = fst (shift (key t) Q)" by simp_all
  have ok1: "queues_ok Q1" unfolding Q1 by (rule queues_ok_shift [OF Cons.prems(2)])
  have sub1: "set (candidates Q1) \<subseteq> set fcs"
    unfolding Q1 using shift_candidates [of "key t" Q] Cons.prems(3) by blast
  show ?case
  proof (cases r)
    case None
    with Cons.prems(1) t s have rn:
      "resolveNodes fcs tcs fe js (Q1, toAdd @ [(t, ?a)], toMorph) = Some (Q', toAdd', toMorph')"
      by simp
    from Cons.IH [OF rn ok1 sub1] obtain new where
      n: "toAdd' = (toAdd @ [(t, ?a)]) @ new" and
      l: "list_all2 (fills fcs tcs toMorph') new (map (\<lambda>j. (j, ?a)) js)" by blast
    have "fills fcs tcs toMorph' (t, ?a) (j, ?a)" using t by (simp add: fills_def)
    with n l show ?thesis by (intro exI [of _ "(t, ?a) # new"]) simp
  next
    case (Some n)
    with Cons.prems(1) t s have rn:
      "resolveNodes fcs tcs fe js (Q1, toAdd @ [(n, ?a)], toMorph @ [(n, j)]) = Some (Q', toAdd', toMorph')"
      by simp
    from Cons.IH [OF rn ok1 sub1] obtain new where
      n: "toAdd' = (toAdd @ [(n, ?a)]) @ new" and
      l: "list_all2 (fills fcs tcs toMorph') new (map (\<lambda>j. (j, ?a)) js)" by blast
    from resolveNodes_toMorph_prefix [OF rn] have mem: "(n, j) \<in> set toMorph'" by auto
    from Some r have f: "fst (shift (key t) Q) = Some n" by simp
    from shift_Some [OF f] Cons.prems(3) have nf: "n \<in> set fcs" by blast
    from shift_queue [of Q "key t"] f have "n \<in> set (queue Q (key t))" by simp
    from queue_key [OF Cons.prems(2) this] have k: "key n = key t" .
    have "fills fcs tcs toMorph' (n, ?a) (j, ?a)" using t k nf mem by (simp add: fills_def)
    with n l show ?thesis by (intro exI [of _ "(n, ?a) # new"]) simp
  qed
qed

lemma targetSlots_Cons:
  "targetSlots fcs ((fs, fe, ts, te) # hs) =
     map (\<lambda>j. (j, map_option nid (nth_opt fcs fe))) [ts..<te] @ targetSlots fcs hs"
  by (simp add: targetSlots_def)

lemma targetSlots_closing:
  "targetSlots fcs (hs @ [(n, n', m, m)]) = targetSlots fcs hs"
  by (simp add: targetSlots_def)

lemma resolveNodes_queues_ok:
  "resolveNodes fcs tcs fe js (Q, toAdd, toMorph) = Some (Q', toAdd', toMorph') \<Longrightarrow>
   queues_ok Q \<Longrightarrow> queues_ok Q'"
proof (induction js arbitrary: Q toAdd toMorph)
  case Nil
  then show ?case by simp
next
  case (Cons j js)
  from Cons.prems(1) obtain t where t: "nth_opt tcs j = Some t"
    by (auto split: option.splits)
  obtain r Q1 where s: "shift (key t) Q = (r, Q1)" by (cases "shift (key t) Q")
  then have Q1: "Q1 = snd (shift (key t) Q)" by simp
  have ok1: "queues_ok Q1" unfolding Q1 by (rule queues_ok_shift [OF Cons.prems(2)])
  from Cons.prems(1) t s obtain toAdd1 toMorph1 where
    "resolveNodes fcs tcs fe js (Q1, toAdd1, toMorph1) = Some (Q', toAdd', toMorph')"
    by (cases r) auto
  from Cons.IH [OF this ok1] show ?case .
qed

lemma resolve_fills:
  "resolve fcs tcs prev hs (Q, toAdd, toMorph) = Some (Q', toAdd', toMorph') \<Longrightarrow>
   queues_ok Q \<Longrightarrow> set (candidates Q) \<subseteq> set fcs \<Longrightarrow>
   \<exists>new. toAdd' = toAdd @ new \<and> list_all2 (fills fcs tcs toMorph') new (targetSlots fcs hs)"
proof (induction fcs tcs prev hs "(Q, toAdd, toMorph)" arbitrary: Q toAdd toMorph rule: resolve.induct)
  case (1 fcs tcs previous r)
  then show ?case by (simp add: targetSlots_def)
next
  case (2 fcs tcs pfs pfe pts pte fs fe ts te hs Q toAdd toMorph)
  from "2.prems"(1) obtain ps where ps: "pairMatched fcs pfe pte [0..<fs - pfe] = Some ps"
    by (auto split: option.splits)
  with "2.prems"(1) obtain Q1 toAdd1 toMorph1 where
    rn: "resolveNodes fcs tcs fe [ts..<te] (Q, toAdd, toMorph @ ps) = Some (Q1, toAdd1, toMorph1)" and
    rs: "resolve fcs tcs (fs, fe, ts, te) hs (Q1, toAdd1, toMorph1) = Some (Q', toAdd', toMorph')"
    by (auto split: option.splits)
  from resolveNodes_fills [OF rn "2.prems"(2,3)] obtain new1 where
    n1: "toAdd1 = toAdd @ new1" and
    l1: "list_all2 (fills fcs tcs toMorph1) new1 (map (\<lambda>j. (j, map_option nid (nth_opt fcs fe))) [ts..<te])"
    by blast
  from resolveNodes_sources [OF rn] "2.prems"(3) have sub1: "set (candidates Q1) \<subseteq> set fcs" by blast
  note ok1 = resolveNodes_queues_ok [OF rn "2.prems"(2)]
  from "2.hyps" [OF ps rn rs ok1 sub1] obtain new2 where
    n2: "toAdd' = toAdd1 @ new2" and
    l2: "list_all2 (fills fcs tcs toMorph') new2 (targetSlots fcs hs)" by blast
  from resolve_toMorph_prefix [OF rs] have "set toMorph1 \<subseteq> set toMorph'" by auto
  with l1 have l1': "list_all2 (fills fcs tcs toMorph') new1
      (map (\<lambda>j. (j, map_option nid (nth_opt fcs fe))) [ts..<te])"
    by (auto elim!: list_all2_mono intro: fills_mono)
  from l1' l2 have "list_all2 (fills fcs tcs toMorph') (new1 @ new2) (targetSlots fcs ((fs, fe, ts, te) # hs))"
    unfolding targetSlots_Cons by (rule list_all2_appendI)
  with n1 n2 show ?case by (intro exI [of _ "new1 @ new2"]) simp
qed

lemma reconcile_resolved:
  assumes r: "reconcile diff push p fcs tcs = Some (cs, ms, toMorph)"
    and dis: "set fcs \<inter> set tcs = {}"
  shows "\<exists>Q Q' toAdd.
        collect push fcs (diff (map key fcs) (map key tcs)) [] = Some Q \<and>
        (\<forall>k. queue Q k = filter (\<lambda>n. key n = k \<and> removable push n)
                 (map ((!) fcs) (gapIndices (diff (map key fcs) (map key tcs))))) \<and>
        ms = map (\<lambda>n. RemoveChild p (nid n)) (candidates Q') @
             map (\<lambda>(n, a). InsertBefore p (nid n) a) toAdd \<and>
        list_all2 (fills fcs tcs toMorph) toAdd (targetSlots fcs (diff (map key fcs) (map key tcs))) \<and>
        resolved fcs tcs Q Q' toAdd toMorph"
proof -
  from reconcile_Some [OF r] obtain Q Q' toAdd cs1 rm where
    co: "collect push fcs (diff (map key fcs) (map key tcs)) [] = Some Q" and
    re: "resolve fcs tcs (0, 0, 0, 0)
       (diff (map key fcs) (map key tcs) @ [(length fcs, length fcs, length tcs, length tcs)])
       (Q, [], []) = Some (Q', toAdd, toMorph)" and
    rc: "removeChildren p (candidates Q') (fcs, []) = Some (cs1, rm)" and
    ins: "insertNodes p toAdd (cs1, rm) = Some (cs, ms)"
    by blast
  from collect_queue [OF co] have
    ok: "queues_ok Q" and
    q: "\<forall>k. queue Q k = filter (\<lambda>n. key n = k \<and> removable push n)
                 (map ((!) fcs) (gapIndices (diff (map key fcs) (map key tcs))))" and
    sub: "set (candidates Q) \<subseteq> set fcs"
    by auto
  from resolve_resolved [OF re ok sub dis] have res: "resolved fcs tcs Q Q' toAdd toMorph"
    by auto
  from resolve_fills [OF re ok sub] have
    fl: "list_all2 (fills fcs tcs toMorph) toAdd (targetSlots fcs (diff (map key fcs) (map key tcs)))"
    by (simp add: targetSlots_closing)
  from removeChildren_result [OF rc] have rm: "rm = map (\<lambda>n. RemoveChild p (nid n)) (candidates Q')"
    by simp
  from insertNodes_result [OF ins] rm have
    ms: "ms = map (\<lambda>n. RemoveChild p (nid n)) (candidates Q') @
             map (\<lambda>(n, a). InsertBefore p (nid n) a) toAdd"
    by simp
  from co q ms fl res show ?thesis by blast
qed

subsection \<open>Every pair of \<open>toMorph\<close> is morphed\<close>

lemma candidates_enqueue_mset:
  "mset (candidates (enqueue k n Q)) = add_mset n (mset (candidates Q))"
  by (induction k n Q rule: enqueue.induct) (auto simp: candidates_def)

lemma collectNodes_mset:
  "collectNodes push fcs js Q = Some Q' \<Longrightarrow>
     mset (candidates Q') = mset (candidates Q) + mset (filter (removable push) (map ((!) fcs) js))"
proof (induction js arbitrary: Q)
  case Nil
  then show ?case by simp
next
  case (Cons j js)
  from Cons.prems obtain n where n: "nth_opt fcs j = Some n"
    by (auto split: option.splits)
  then have nj: "fcs ! j = n" by (auto simp: nth_opt_def split: if_splits)
  show ?case
  proof (cases "push \<and> lcu_of n = LcuFalse")
    case True
    with Cons.prems n have "collectNodes push fcs js Q = Some Q'" by simp
    from Cons.IH [OF this] True nj show ?thesis by (simp add: removable_def)
  next
    case False
    with Cons.prems n have "collectNodes push fcs js (enqueue (key n) n Q) = Some Q'" by auto
    from Cons.IH [OF this] False nj show ?thesis
      by (simp add: removable_def candidates_enqueue_mset)
  qed
qed

lemma gapIndices_Cons:
  "gapIndices ((fs, fe, ts, te) # hs) = [fs..<fe] @ gapIndices hs"
  by (simp add: gapIndices_def)

lemma collect_mset:
  "collect push fcs hs Q = Some Q' \<Longrightarrow>
     mset (candidates Q') =
       mset (candidates Q) + mset (filter (removable push) (map ((!) fcs) (gapIndices hs)))"
proof (induction push fcs hs Q rule: collect.induct)
  case (1 push fcs Q)
  then show ?case by (simp add: gapIndices_def)
next
  case (2 push fcs fs fe ts te hs Q)
  from "2.prems" obtain Q1 where
    c1: "collectNodes push fcs [fs..<fe] Q = Some Q1" and
    c2: "collect push fcs hs Q1 = Some Q'"
    by (auto split: option.splits)
  from collectNodes_mset [OF c1] "2.IH" [OF c1 c2] show ?case
    by (simp add: gapIndices_Cons)
qed

lemma shift_mset:
  "shift k Q = (Some n, Q1) \<Longrightarrow> mset (candidates Q) = add_mset n (mset (candidates Q1))"
proof (induction k Q arbitrary: Q1 rule: shift.induct)
  case (1 k)
  then show ?case by simp
next
  case (2 k k' q Q)
  show ?case
  proof (cases "k' = k")
    case True
    with "2.prems" show ?thesis by (cases q) (auto simp: candidates_def)
  next
    case False
    obtain r Q2 where s: "shift k Q = (r, Q2)" by (cases "shift k Q")
    with False "2.prems" have r: "r = Some n" and Q1: "Q1 = (k', q) # Q2" by auto
    from "2.IH" [OF False] s r have "mset (candidates Q) = add_mset n (mset (candidates Q2))"
      by simp
    with Q1 show ?thesis by (simp add: candidates_def)
  qed
qed

lemma resolveNodes_mset:
  "resolveNodes fcs tcs fe js (Q, toAdd, toMorph) = Some (Q', toAdd', toMorph') \<Longrightarrow>
     mset (map fst toMorph') + mset (candidates Q') = mset (map fst toMorph) + mset (candidates Q)"
proof (induction js arbitrary: Q toAdd toMorph)
  case Nil
  then show ?case by simp
next
  case (Cons j js)
  from Cons.prems obtain t where t: "nth_opt tcs j = Some t"
    by (auto split: option.splits)
  obtain r Q1 where s: "shift (key t) Q = (r, Q1)" by (cases "shift (key t) Q")
  show ?case
  proof (cases r)
    case None
    with s shift_None [of "key t" Q] have "Q1 = Q" by simp
    with Cons.prems t s None have
      "resolveNodes fcs tcs fe js (Q, toAdd @ [(t, map_option nid (nth_opt fcs fe))], toMorph)
         = Some (Q', toAdd', toMorph')" by simp
    from Cons.IH [OF this] show ?thesis .
  next
    case (Some n)
    with Cons.prems t s have
      "resolveNodes fcs tcs fe js (Q1, toAdd @ [(n, map_option nid (nth_opt fcs fe))], toMorph @ [(n, j)])
         = Some (Q', toAdd', toMorph')" by simp
    from Cons.IH [OF this] shift_mset [of "key t" Q n Q1] s Some show ?thesis by simp
  qed
qed

lemma pairMatched_nodes:
  "pairMatched fcs pfe pte offs = Some ps \<Longrightarrow>
     map fst ps = map (\<lambda>off. fcs ! (pfe + off)) offs"
proof (induction offs arbitrary: ps)
  case Nil
  then show ?case by simp
next
  case (Cons off offs)
  from Cons.prems obtain f ps' where
    f: "nth_opt fcs (pfe + off) = Some f" and
    p: "pairMatched fcs pfe pte offs = Some ps'" and
    e: "ps = (f, pte + off) # ps'"
    by (auto split: option.splits)
  from f have "fcs ! (pfe + off) = f" by (auto simp: nth_opt_def split: if_splits)
  with Cons.IH [OF p] e show ?case by simp
qed

lemma take_extend_mset:
  assumes "e \<le> fs" and "fs \<le> length xs"
  shows "mset (take fs xs) = mset (take e xs) + mset (map ((!) xs) [e..<fs])"
proof -
  have "drop e (take fs xs) = map ((!) xs) [e..<fs]"
    using assms by (intro nth_equalityI) auto
  moreover have "take e (take fs xs) = take e xs"
    using assms by (simp add: min_def)
  ultimately have "take fs xs = take e xs @ map ((!) xs) [e..<fs]"
    by (metis append_take_drop_id)
  then show ?thesis by simp
qed

lemma matched_offsets: "map (\<lambda>off. xs ! (e + off)) [0..<fs - e] = map ((!) xs) [e..<fs]"
  by (intro nth_equalityI) auto

lemma resolve_mset:
  "resolve fcs tcs prev hs (Q, toAdd, toMorph) = Some (Q', toAdd', toMorph') \<Longrightarrow>
   hunksOrdered (fst (snd prev)) hs \<Longrightarrow>
   \<forall>h \<in> set hs. fst (snd h) \<le> length fcs \<Longrightarrow>
   mset (map fst toMorph) + mset (candidates Q)
     \<subseteq># mset (take (fst (snd prev)) fcs) + mset (map ((!) fcs) (gapIndices hs)) \<Longrightarrow>
   mset (map fst toMorph') + mset (candidates Q') \<subseteq># mset fcs"
proof (induction fcs tcs prev hs "(Q, toAdd, toMorph)" arbitrary: Q toAdd toMorph rule: resolve.induct)
  case (1 fcs tcs previous r)
  have "mset (take (fst (snd previous)) fcs) \<subseteq># mset fcs"
    by (metis append_take_drop_id mset_append mset_subset_eq_add_left)
  with 1 show ?case by (auto simp: gapIndices_def)
next
  case (2 fcs tcs pfs pfe pts pte fs fe ts te hs Q toAdd toMorph)
  from "2.prems"(1) obtain ps where ps: "pairMatched fcs pfe pte [0..<fs - pfe] = Some ps"
    by (auto split: option.splits)
  with "2.prems"(1) obtain Q1 toAdd1 toMorph1 where
    rn: "resolveNodes fcs tcs fe [ts..<te] (Q, toAdd, toMorph @ ps) = Some (Q1, toAdd1, toMorph1)" and
    rs: "resolve fcs tcs (fs, fe, ts, te) hs (Q1, toAdd1, toMorph1) = Some (Q', toAdd', toMorph')"
    by (auto split: option.splits)
  from "2.prems"(2) have o: "pfe \<le> fs" "fs \<le> fe" "hunksOrdered fe hs" by simp_all
  from "2.prems"(3) have b: "fe \<le> length fcs" "\<forall>h \<in> set hs. fst (snd h) \<le> length fcs" by simp_all
  from pairMatched_nodes [OF ps] have m: "map fst ps = map ((!) fcs) [pfe..<fs]"
    by (simp add: matched_offsets)
  have t1: "mset (take fs fcs) = mset (take pfe fcs) + mset (map ((!) fcs) [pfe..<fs])"
    using o b by (intro take_extend_mset) simp_all
  have t2: "mset (take fe fcs) = mset (take fs fcs) + mset (map ((!) fcs) [fs..<fe])"
    using o b by (intro take_extend_mset) simp_all
  from "2.prems"(4) have
    "mset (map fst toMorph) + mset (candidates Q) + mset (map fst ps)
       \<subseteq># mset (take pfe fcs) + mset (map ((!) fcs) (gapIndices ((fs, fe, ts, te) # hs)))
            + mset (map fst ps)"
    by (simp del: mset_map)
  also have "\<dots> = mset (take fe fcs) + mset (map ((!) fcs) (gapIndices hs))"
    using m t1 t2 by (simp add: gapIndices_Cons)
  finally have "mset (map fst (toMorph @ ps)) + mset (candidates Q)
       \<subseteq># mset (take fe fcs) + mset (map ((!) fcs) (gapIndices hs))"
    by (simp add: ac_simps)
  with resolveNodes_mset [OF rn] have
    "mset (map fst toMorph1) + mset (candidates Q1)
       \<subseteq># mset (take (fst (snd (fs, fe, ts, te))) fcs) + mset (map ((!) fcs) (gapIndices hs))"
    by simp
  from "2.hyps" [OF ps rn rs _ b(2) this] o show ?case by simp
qed

lemma distinct_mset_sub:
  assumes s: "mset xs \<subseteq># mset ys" and d: "distinct ys"
  shows "distinct xs"
  unfolding distinct_count_atmost_1
proof
  fix a
  from s have le: "count (mset xs) a \<le> count (mset ys) a" by (rule mset_subset_eq_count)
  from d have "count (mset ys) a \<le> 1" by (simp add: distinct_count_atmost_1)
  with le have le1: "count (mset xs) a \<le> 1" by simp
  show "count (mset xs) a = (if a \<in> set xs then 1 else 0)"
  proof (cases "a \<in> set xs")
    case True
    then have "0 < count (mset xs) a" by simp
    with le1 have "count (mset xs) a = 1" by linarith
    with True show ?thesis by (simp only: if_True)
  next
    case False
    then show ?thesis by (simp add: count_eq_zero_iff)
  qed
qed

lemma hunksOrdered_le:
  "hunksOrdered e (hs @ [(n, n', a, b)]) \<Longrightarrow> e \<le> n'"
  by (induction e hs rule: hunksOrdered.induct) auto

lemma hunksOrdered_bounded:
  "hunksOrdered e (hs @ [(n, n', a, b)]) \<Longrightarrow> h \<in> set (hs @ [(n, n', a, b)]) \<Longrightarrow> fst (snd h) \<le> n'"
proof (induction e hs rule: hunksOrdered.induct)
  case (1 e)
  then show ?case by auto
next
  case (2 e fs fe ts te hs)
  from "2.prems"(1) have o: "hunksOrdered fe (hs @ [(n, n', a, b)])" by simp
  from "2.prems"(2) consider "h = (fs, fe, ts, te)" | "h \<in> set (hs @ [(n, n', a, b)])" by auto
  then show ?case
  proof cases
    case 1
    with hunksOrdered_le [OF o] show ?thesis by simp
  next
    case 2
    from "2.IH" [OF o this] show ?thesis .
  qed
qed

lemma gapIndices_closing: "gapIndices (hs @ [(n, n, a, b)]) = gapIndices hs"
  by (simp add: gapIndices_def)

lemma reconcile_toMorph_distinct:
  assumes co: "collect push fcs hunks [] = Some Q"
    and re: "resolve fcs tcs (0, 0, 0, 0) (hunks @ [(length fcs, length fcs, length tcs, length tcs)])
               (Q, [], []) = Some (Q', toAdd, toMorph)"
    and ho: "hunksOrdered 0 (hunks @ [(length fcs, length fcs, length tcs, length tcs)])"
    and d: "distinct fcs"
  shows "distinct (map fst toMorph @ candidates Q')" and "set (map fst toMorph @ candidates Q') \<subseteq> set fcs"
proof -
  let ?hs = "hunks @ [(length fcs, length fcs, length tcs, length tcs)]"
  from collect_mset [OF co] have
    "mset (candidates Q) = mset (filter (removable push) (map ((!) fcs) (gapIndices hunks)))"
    by (simp add: candidates_def)
  then have "mset (candidates Q) \<subseteq># mset (map ((!) fcs) (gapIndices hunks))"
    by (metis mset_filter multiset_filter_subset)
  then have start: "mset (map fst ([]::(node \<times> nat) list)) + mset (candidates Q)
      \<subseteq># mset (take (fst (snd (0::nat, 0::nat, 0::nat, 0::nat))) fcs) + mset (map ((!) fcs) (gapIndices ?hs))"
    by (simp add: gapIndices_closing del: mset_map)
  have b: "\<forall>h \<in> set ?hs. fst (snd h) \<le> length fcs"
    using hunksOrdered_bounded [OF ho] by blast
  from ho have ho': "hunksOrdered (fst (snd (0::nat, 0::nat, 0::nat, 0::nat))) ?hs" by simp
  from resolve_mset [OF re ho' b start] have
    sub: "mset (map fst toMorph @ candidates Q') \<subseteq># mset fcs" by simp
  from distinct_mset_sub [OF sub d] show "distinct (map fst toMorph @ candidates Q')" .
  from set_mset_mono [OF sub] show "set (map fst toMorph @ candidates Q') \<subseteq> set fcs"
    by simp
qed

lemma insertNodes_keeps:
  "insertNodes p toAdd (cs, ms) = Some (cs', ms') \<Longrightarrow> c \<in> set cs \<Longrightarrow>
   \<forall>n \<in> fst ` set toAdd. nid n = nid c \<longrightarrow> n = c \<Longrightarrow> c \<in> set cs'"
proof (induction toAdd arbitrary: cs ms)
  case Nil
  then show ?case by simp
next
  case (Cons x toAdd)
  obtain n a where x: "x = (n, a)" by (cases x)
  from Cons.prems(1) x obtain cs1 where
    i: "insertBefore cs n a = Some cs1" and
    rest: "insertNodes p toAdd (cs1, ms @ [InsertBefore p (nid n) a]) = Some (cs', ms')"
    by (auto split: option.splits)
  from set_insertBefore [OF i] have s: "set cs1 = insert n {c \<in> set cs. nid c \<noteq> nid n}" .
  have "n \<in> fst ` set (x # toAdd)" using x by simp
  with Cons.prems(3) have same: "nid n = nid c \<longrightarrow> n = c" by blast
  have later: "\<forall>n \<in> fst ` set toAdd. nid n = nid c \<longrightarrow> n = c"
    using Cons.prems(3) by simp
  have "c \<in> set cs1"
  proof (cases "nid n = nid c")
    case True
    with same s show ?thesis by simp
  next
    case False
    with s Cons.prems(2) show ?thesis by simp
  qed
  from Cons.IH [OF rest this later] show ?case .
qed

lemma replaceChild_other: "nid c \<noteq> nid f \<Longrightarrow> c \<in> set cs \<Longrightarrow> c \<in> set (replaceChild cs f f')"
  by (auto simp: replaceChild_def)

lemma replaceChild_self: "f \<in> set cs \<Longrightarrow> f' \<in> set (replaceChild cs f f')"
  by (auto simp: replaceChild_def)

lemma morph_nid: "morph diff chain push f t = Some (f', m) \<Longrightarrow> nid f' = nid f"
proof (cases f)
  case (Element i tag attrs l v c cs)
  assume "morph diff chain push f t = Some (f', m)"
  with Element morph_keeps_shape [of diff chain push i tag attrs l v c cs t f' m]
  show ?thesis by auto
next
  case (CharacterData i ty s)
  assume "morph diff chain push f t = Some (f', m)"
  with CharacterData show ?thesis by simp
qed

lemma morphAll_step:
  assumes "morphAll diff chain push tcs ((f, j) # rest) (cs, ms) = Some (cs', ms')"
  shows "\<exists>cs1 ms1. morphAll diff chain push tcs rest (cs1, ms1) = Some (cs', ms') \<and>
      ((cs1 = cs \<and> ms1 = ms \<and> (\<not> isElement f \<or> nth_opt tcs j = None)) \<or>
       (isElement f \<and>
        (\<exists>t f' m. nth_opt tcs j = Some t \<and> morph diff chain push f t = Some (f', m) \<and>
           cs1 = replaceChild cs f f' \<and> ms1 = ms @ m)))"
proof (cases "isElement f")
  case False
  with assms show ?thesis by auto
next
  case True
  show ?thesis
  proof (cases "nth_opt tcs j")
    case None
    with True assms show ?thesis by (auto split: if_splits)
  next
    case (Some t)
    show ?thesis
    proof (cases "morph diff chain push f t")
      case None
      with Some True assms show ?thesis by simp
    next
      case (Some r)
      obtain f' m where r: "r = (f', m)" by (cases r)
      with Some \<open>nth_opt tcs j = Some t\<close> True assms
      have "morphAll diff chain push tcs rest (replaceChild cs f f', ms @ m) = Some (cs', ms')"
        by simp
      with Some r True \<open>nth_opt tcs j = Some t\<close> show ?thesis by blast
    qed
  qed
qed

lemma morphAll_keeps_other:
  "morphAll diff chain push tcs toMorph (cs, ms) = Some (cs', ms') \<Longrightarrow> c \<in> set cs \<Longrightarrow>
   nid c \<notin> nid ` fst ` set toMorph \<Longrightarrow> c \<in> set cs'"
proof (induction toMorph arbitrary: cs ms)
  case Nil
  then show ?case by simp
next
  case (Cons x toMorph)
  obtain f j where x: "x = (f, j)" by (cases x)
  from Cons.prems(3) x have nf: "nid c \<noteq> nid f" and later: "nid c \<notin> nid ` fst ` set toMorph"
    by auto
  from morphAll_step [of diff chain push tcs f j toMorph cs ms cs' ms'] Cons.prems(1) x
  obtain cs1 ms1 where
    step: "morphAll diff chain push tcs toMorph (cs1, ms1) = Some (cs', ms')" and
    cs1: "cs1 = cs \<or> (\<exists>f'. cs1 = replaceChild cs f f')"
    by auto
  from cs1 nf Cons.prems(2) have "c \<in> set cs1" by (auto intro: replaceChild_other)
  from Cons.IH [OF step this later] show ?case .
qed

lemma morphAll_log_prefix:
  "morphAll diff chain push tcs toMorph (cs, ms) = Some (cs', ms') \<Longrightarrow> \<exists>rest. ms' = ms @ rest"
proof (induction toMorph arbitrary: cs ms)
  case Nil
  then show ?case by simp
next
  case (Cons x toMorph)
  obtain f j where x: "x = (f, j)" by (cases x)
  from morphAll_step [of diff chain push tcs f j toMorph cs ms cs' ms'] Cons.prems(1) x
  obtain cs1 ms1 where
    step: "morphAll diff chain push tcs toMorph (cs1, ms1) = Some (cs', ms')" and
    ms1: "ms1 = ms \<or> (\<exists>m. ms1 = ms @ m)"
    by auto
  from Cons.IH [OF step] obtain rest where "ms' = ms1 @ rest" by blast
  with ms1 show ?case by auto
qed

lemma morphAll_morphs:
  assumes "morphAll diff chain push tcs toMorph (cs, ms) = Some (cs', ms')"
    and "distinct (map (nid \<circ> fst) toMorph)"
    and "(f, j) \<in> set toMorph" and "isElement f" and "nth_opt tcs j = Some t" and "f \<in> set cs"
  shows "\<exists>f' m before after. morph diff chain push f t = Some (f', m) \<and> f' \<in> set cs' \<and>
           ms' = before @ m @ after"
  using assms
proof (induction toMorph arbitrary: cs ms)
  case Nil
  then show ?case by simp
next
  case (Cons x toMorph)
  obtain g k where x: "x = (g, k)" by (cases x)
  from Cons.prems(2) x have ng: "nid g \<notin> nid ` fst ` set toMorph"
    and dr: "distinct (map (nid \<circ> fst) toMorph)" by (auto simp: image_image comp_def)
  from morphAll_step [of diff chain push tcs g k toMorph cs ms cs' ms'] Cons.prems(1) x
  obtain cs1 ms1 where
    step: "morphAll diff chain push tcs toMorph (cs1, ms1) = Some (cs', ms')" and
    alt: "(cs1 = cs \<and> ms1 = ms \<and> (\<not> isElement g \<or> nth_opt tcs k = None)) \<or>
       (isElement g \<and>
        (\<exists>t f' m. nth_opt tcs k = Some t \<and> morph diff chain push g t = Some (f', m) \<and>
           cs1 = replaceChild cs g f' \<and> ms1 = ms @ m))"
    by blast
  show ?case
  proof (cases "(f, j) = (g, k)")
    case True
    with alt Cons.prems(4,5) obtain f' m where
      m: "morph diff chain push f t = Some (f', m)" and
      cs1: "cs1 = replaceChild cs f f'" and ms1: "ms1 = ms @ m"
      by auto
    from cs1 Cons.prems(6) have "f' \<in> set cs1" by (simp add: replaceChild_self)
    moreover from morph_nid [OF m] True ng have "nid f' \<notin> nid ` fst ` set toMorph" by simp
    ultimately have "f' \<in> set cs'" by (rule morphAll_keeps_other [OF step])
    moreover from morphAll_log_prefix [OF step] ms1 obtain rest where "ms' = ms @ m @ rest"
      by auto
    ultimately show ?thesis using m by blast
  next
    case False
    with Cons.prems(3) x have mem: "(f, j) \<in> set toMorph" by auto
    then have "nid f \<in> nid ` fst ` set toMorph" by force
    with ng have "nid f \<noteq> nid g" by metis
    with alt Cons.prems(6) have "f \<in> set cs1" by (auto intro: replaceChild_other)
    from Cons.IH [OF step dr mem Cons.prems(4,5) this] show ?thesis .
  qed
qed

lemma morph_children_morphed:
  assumes m: "morph diff ancestors push (Element i tag attrs l v c fcs)
             (Element i' tag' attrs' l' v' c' tcs) = Some (from', ms)"
    and ns: "\<not> (push \<and> l = LcuFalse)"
    and d: "distinct (map nid (fcs @ tcs))"
    and ho: "hunksOrdered 0 (diff (map key fcs) (map key tcs) @
               [(length fcs, length fcs, length tcs, length tcs)])"
  shows "\<exists>cs ms3 toMorph. reconcile diff push i fcs tcs = Some (cs, ms3, toMorph) \<and>
      (\<forall>(f, j) \<in> set toMorph. \<forall>t. isElement f \<and> nth_opt tcs j = Some t \<longrightarrow>
         (\<exists>f' m before after.
            morph diff (parents l ancestors) push f t = Some (f', m) \<and>
            f' \<in> set (childNodes from') \<and> ms = before @ m @ after))"
proof -
  from m ns obtain attrs1 ms1 v1 c1 ms2 cs ms3 toMorph cs' ms4 where
    r: "reconcile diff push i fcs tcs = Some (cs, ms3, toMorph)" and
    a: "morphAll diff (parents l ancestors) push tcs toMorph (cs, []) = Some (cs', ms4)" and
    f: "from' = Element i tag attrs1 l v1 c1 cs'" and
    ms: "ms = ms1 @ ms2 @ ms3 @ ms4"
    by (rule morph_Element_Some)
  from reconcile_Some [OF r] obtain Q Q' toAdd cs0 rm where
    co: "collect push fcs (diff (map key fcs) (map key tcs)) [] = Some Q" and
    re: "resolve fcs tcs (0, 0, 0, 0)
       (diff (map key fcs) (map key tcs) @ [(length fcs, length fcs, length tcs, length tcs)])
       (Q, [], []) = Some (Q', toAdd, toMorph)" and
    rc: "removeChildren i (candidates Q') (fcs, []) = Some (cs0, rm)" and
    ins: "insertNodes i toAdd (cs0, rm) = Some (cs, ms3)"
    by blast
  from d have df: "distinct (map nid fcs)" by simp
  then have dfc: "distinct fcs" by (simp add: distinct_map)
  from d have inj: "inj_on nid (set (fcs @ tcs))" by (simp only: distinct_map)
  have same: "n = g" if "nid n = nid g" "n \<in> set fcs \<union> set tcs" "g \<in> set fcs" for n g
    using inj_onD [OF inj that(1)] that(2,3) by simp
  note dm = reconcile_toMorph_distinct [OF co re ho dfc]
  from dm have sub: "fst ` set toMorph \<subseteq> set fcs" and subQ: "set (candidates Q') \<subseteq> set fcs"
    by auto
  have dn: "distinct (map (nid \<circ> fst) toMorph)"
  proof -
    from dm(1) have "distinct (map fst toMorph)" by simp
    moreover have "inj_on nid (set (map fst toMorph))"
      by (rule inj_on_subset [OF inj]) (use sub in auto)
    ultimately have "distinct (map nid (map fst toMorph))"
      by (simp only: distinct_map [of nid "map fst toMorph"] simp_thms)
    then show ?thesis by (simp only: map_map)
  qed
  from collect_queue [OF co] have cq: "set (candidates Q) \<subseteq> set fcs"
    by (auto simp: queues_ok_def candidates_def)
  from resolve_sources [OF re] cq have ta: "fst ` set toAdd \<subseteq> set fcs \<union> set tcs" by auto
  have incs: "g \<in> set cs" if g: "g \<in> fst ` set toMorph" for g
  proof -
    from g sub have gf: "g \<in> set fcs" by blast
    from g dm(1) have "g \<notin> set (candidates Q')" by auto
    have "nid g \<notin> nid ` set (candidates Q')"
    proof
      assume "nid g \<in> nid ` set (candidates Q')"
      then obtain n where n: "n \<in> set (candidates Q')" "nid n = nid g" by force
      with subQ have "n \<in> set fcs \<union> set tcs" by blast
      from same [OF n(2) this gf] n(1) \<open>g \<notin> set (candidates Q')\<close> show False by simp
    qed
    with removeChildren_result [OF rc] gf have g0: "g \<in> set cs0" by simp
    have "\<forall>n \<in> fst ` set toAdd. nid n = nid g \<longrightarrow> n = g"
    proof (intro ballI impI)
      fix n assume "n \<in> fst ` set toAdd" and e: "nid n = nid g"
      with ta have "n \<in> set fcs \<union> set tcs" by blast
      from same [OF e this gf] show "n = g" .
    qed
    from insertNodes_keeps [OF ins g0 this] show ?thesis .
  qed
  have each: "\<exists>f' m before after.
            morph diff (parents l ancestors) push g t = Some (f', m) \<and>
            f' \<in> set (childNodes from') \<and> ms = before @ m @ after"
    if mem: "(g, j) \<in> set toMorph" and e: "isElement g" and t: "nth_opt tcs j = Some t" for g j t
  proof -
    from mem have "g \<in> fst ` set toMorph" by force
    from morphAll_morphs [OF a dn mem e t incs [OF this]] obtain f' m' b a' where
      g: "morph diff (parents l ancestors) push g t = Some (f', m')" and c: "f' \<in> set cs'" and
      l: "ms4 = b @ m' @ a'" by blast
    from l ms have "ms = (ms1 @ ms2 @ ms3 @ b) @ m' @ a'" by simp
    moreover from c f have "f' \<in> set (childNodes from')" by simp
    ultimately show ?thesis using g by blast
  qed
  have all: "\<forall>(f, j) \<in> set toMorph. \<forall>t. isElement f \<and> nth_opt tcs j = Some t \<longrightarrow>
         (\<exists>f' m before after.
            morph diff (parents l ancestors) push f t = Some (f', m) \<and>
            f' \<in> set (childNodes from') \<and> ms = before @ m @ after)"
  proof (rule ballI)
    fix x assume x: "x \<in> set toMorph"
    obtain g j where xg: "x = (g, j)" by (cases x)
    show "case x of (f, j) \<Rightarrow> \<forall>t. isElement f \<and> nth_opt tcs j = Some t \<longrightarrow>
         (\<exists>f' m before after.
            morph diff (parents l ancestors) push f t = Some (f', m) \<and>
            f' \<in> set (childNodes from') \<and> ms = before @ m @ after)"
      unfolding xg prod.case
    proof (intro allI impI)
      fix t assume "isElement g \<and> nth_opt tcs j = Some t"
      with x xg each [of g j t]
      show "\<exists>f' m before after.
            morph diff (parents l ancestors) push g t = Some (f', m) \<and>
            f' \<in> set (childNodes from') \<and> ms = before @ m @ after"
        by simp
    qed
  qed
  show ?thesis
    by (intro exI [of _ cs] exI [of _ ms3] exI [of _ toMorph] conjI) (rule r, rule all)
qed

subsection \<open>The claims about \<open>morph\<close>\<close>

text \<open>
  Claim C2, as the spec states it, on a text area nobody has edited and nothing pins,
  with the text \<open>old\<close>. Under a push update whose target holds the text \<open>new\<close>, the update
  replaces the text child, and the \<open>value\<close> of the live text area, which was \<open>old\<close>, is
  \<open>new\<close> afterwards. Under an update that is not a push, whose target holds the text \<open>new\<close>
  and has been given the value \<open>old\<close>, nothing is assigned, as the values are equal when
  \<open>morph\<close> compares them, the text child is replaced, and the \<open>value\<close> of the live text
  area is \<open>new\<close> afterwards while the target's is \<open>old\<close>.
\<close>

theorem morph_push_textarea_value_changes:
  "morph lcsDiff [] True (textarea 0 LcuUndefined None [CharacterData 1 TextNode ''old''])
       (textarea 10 LcuUndefined None [CharacterData 11 TextNode ''new''])
     = Some (textarea 0 LcuUndefined None [CharacterData 11 TextNode ''new''],
             [RemoveChild 0 1, InsertBefore 0 11 None]) \<and>
   \<not> list_ex (\<lambda>element. has element ''value'') (parents LcuUndefined []) \<and>
   valueProperty (textarea 0 LcuUndefined None [CharacterData 1 TextNode ''old'']) = Some ''old'' \<and>
   valueProperty (textarea 0 LcuUndefined None [CharacterData 11 TextNode ''new'']) = Some ''new'' \<and>
   morph lcsDiff [] False (textarea 0 LcuUndefined None [CharacterData 1 TextNode ''old''])
       (textarea 10 LcuUndefined (Some ''old'') [CharacterData 11 TextNode ''new''])
     = Some (textarea 0 LcuUndefined None [CharacterData 11 TextNode ''new''],
             [RemoveChild 0 1, InsertBefore 0 11 None]) \<and>
   valueProperty (textarea 10 LcuUndefined (Some ''old'') [CharacterData 11 TextNode ''new''])
     = Some ''old''"
  by code_simp

text \<open>
  Claim C2, amended. Let \<open>morph\<close> return on a live element. On a push update, an
  attribute of the protected set that no element of \<open>parents(from)\<close> (the element itself
  and its ancestors) names in a \<open>liveConnectionUpdate\<close> set has afterwards the value it
  had before; if no such element names \<open>value\<close>, nothing is assigned to \<open>value\<close>, and the
  \<open>value\<close> is afterwards what it was before unless the element is a text area nobody has
  edited; if no such element names \<open>checked\<close>, nothing is assigned to \<open>checked\<close> and
  \<open>checked\<close> is afterwards what it was before. On an update that is not a push, every
  attribute has afterwards the value it has on the target (none if the target has
  none); on an \<open>input\<close> the \<open>value\<close> and \<open>checked\<close> are afterwards what the target's are
  (read as JavaScript reads them when the target has none); and so is the \<open>value\<close> of a
  text area if it has been edited or differs from the target's when \<open>morph\<close> compares
  them, or if both text areas hold what the parser leaves, the target is unedited and
  the diff reports nothing for equal sequences.
\<close>

theorem morph_push_protects:
  "(morph diff ancestors True (Element i tag attrs l v c fcs) to = Some (from', ms) \<longrightarrow>
      (protected a \<and> \<not> list_ex (\<lambda>element. has element a) (parents l ancestors) \<longrightarrow>
         getAttribute (attributes from') a = getAttribute attrs a) \<and>
      (\<not> list_ex (\<lambda>element. has element ''value'') (parents l ancestors) \<longrightarrow>
         valueSet from' = v \<and>
         (tag \<noteq> ''TEXTAREA'' \<or> v \<noteq> None \<longrightarrow>
            valueProperty from' = valueProperty (Element i tag attrs l v c fcs))) \<and>
      (\<not> list_ex (\<lambda>element. has element ''checked'') (parents l ancestors) \<longrightarrow>
         checkedSet from' = c \<and>
         checkedProperty from' = checkedProperty (Element i tag attrs l v c fcs))) \<and>
   (morph diff ancestors False (Element i tag attrs l v c fcs)
        (Element i' tag' attrs' l' v' c' tcs) = Some (from', ms) \<longrightarrow>
      getAttribute (attributes from') a = getAttribute attrs' a \<and>
      (tag = ''INPUT'' \<longrightarrow>
         valueProperty from' = Some (jsString (valueProperty (Element i' tag' attrs' l' v' c' tcs))) \<and>
         checkedProperty from' =
           Some (jsBoolean (checkedProperty (Element i' tag' attrs' l' v' c' tcs)))) \<and>
      (tag = ''TEXTAREA'' \<and>
       (v \<noteq> None \<or> Some (childTextContent fcs) \<noteq> valueProperty (Element i' tag' attrs' l' v' c' tcs)) \<longrightarrow>
         valueProperty from' = Some (jsString (valueProperty (Element i' tag' attrs' l' v' c' tcs)))) \<and>
      (tag = ''TEXTAREA'' \<and> tag' = ''TEXTAREA'' \<and> v' = None \<and> parsedText fcs \<and> parsedText tcs \<and>
       (\<forall>ks. diff ks ks = []) \<longrightarrow>
         valueProperty from' = valueProperty (Element i' tag' attrs' l' v' c' tcs)))"
proof (intro conjI impI)
  assume m: "morph diff ancestors True (Element i tag attrs l v c fcs) to = Some (from', ms)"
  from morph_keeps_shape [OF m] obtain attrs1 v1 c1 cs' where
    f: "from' = Element i tag attrs1 l v1 c1 cs'" by blast
  show "getAttribute (attributes from') a = getAttribute attrs a"
    if "protected a \<and> \<not> list_ex (\<lambda>element. has element a) (parents l ancestors)"
    using morph_protected_kept(1) [OF m] that by blast
  show "valueSet from' = v"
    if "\<not> list_ex (\<lambda>element. has element ''value'') (parents l ancestors)"
    using morph_protected_kept(2) [OF m that] .
  show "valueProperty from' = valueProperty (Element i tag attrs l v c fcs)"
    if u: "\<not> list_ex (\<lambda>element. has element ''value'') (parents l ancestors)"
      and t: "tag \<noteq> ''TEXTAREA'' \<or> v \<noteq> None"
  proof -
    from morph_protected_kept(2) [OF m u] f have v1: "v1 = v" by simp
    have "getAttribute attrs1 ''value'' = getAttribute attrs ''value''"
      using morph_protected_kept(1) [OF m, of "''value''"] u f by (simp add: protected_def)
    with f v1 t show ?thesis by (auto split: option.splits)
  qed
  show "checkedSet from' = c"
    if "\<not> list_ex (\<lambda>element. has element ''checked'') (parents l ancestors)"
    using morph_protected_kept(3) [OF m that] .
  show "checkedProperty from' = checkedProperty (Element i tag attrs l v c fcs)"
    if u: "\<not> list_ex (\<lambda>element. has element ''checked'') (parents l ancestors)"
  proof -
    from morph_protected_kept(3) [OF m u] f have c1: "c1 = c" by simp
    have "getAttribute attrs1 ''checked'' = getAttribute attrs ''checked''"
      using morph_protected_kept(1) [OF m, of "''checked''"] u f by (simp add: protected_def)
    with f c1 show ?thesis by (auto split: option.splits)
  qed
next
  assume m: "morph diff ancestors False (Element i tag attrs l v c fcs)
        (Element i' tag' attrs' l' v' c' tcs) = Some (from', ms)"
  have ns: "\<not> (False \<and> l = LcuFalse)"
    and upd: "\<not> (False \<and> \<not> list_ex (\<lambda>element. has element x) (parents l ancestors))" for x
    by simp_all
  show "getAttribute (attributes from') a = getAttribute attrs' a"
    using morph_Element_result [OF m] by (auto simp: morphAttributes_get)
  show "valueProperty from' = Some (jsString (valueProperty (Element i' tag' attrs' l' v' c' tcs)))"
    if "tag = ''INPUT''"
    using morph_value_updated(1) [OF m ns upd that] .
  show "checkedProperty from' = Some (jsBoolean (checkedProperty (Element i' tag' attrs' l' v' c' tcs)))"
    if "tag = ''INPUT''"
    using morph_checked_updated [OF m ns upd that] .
  show "valueProperty from' = Some (jsString (valueProperty (Element i' tag' attrs' l' v' c' tcs)))"
    if "tag = ''TEXTAREA'' \<and>
       (v \<noteq> None \<or> Some (childTextContent fcs) \<noteq> valueProperty (Element i' tag' attrs' l' v' c' tcs))"
    using morph_value_updated(2) [OF m ns upd] that by blast
  show "valueProperty from' = valueProperty (Element i' tag' attrs' l' v' c' tcs)"
    if "tag = ''TEXTAREA'' \<and> tag' = ''TEXTAREA'' \<and> v' = None \<and> parsedText fcs \<and> parsedText tcs \<and>
       (\<forall>ks. diff ks ks = [])"
    using morph_value_updated(3) [OF m ns upd] that by blast
qed

lemma live_input_push:
  "morph lcsDiff [] True (input 0 LcuUndefined ''old'' (Some ''typed'') (Some True))
       (input 10 LcuUndefined ''new'' None None)
     = Some (input 0 LcuUndefined ''old'' (Some ''typed'') (Some True), [])"
  by code_simp

lemma live_input_mount:
  "morph lcsDiff [] False (input 0 LcuUndefined ''old'' (Some ''typed'') (Some True))
       (input 10 LcuUndefined ''new'' None None)
     = Some (input 0 LcuUndefined ''new'' (Some ''new'') (Some False),
             [SetAttribute 0 ''value'' ''new'', SetValue 0 (Some ''new''), SetChecked 0 (Some False)])"
  by code_simp

lemma live_textarea_mount:
  "morph lcsDiff [] False (textarea 0 LcuUndefined (Some ''typed'') [CharacterData 1 TextNode ''old''])
       (textarea 10 LcuUndefined None [CharacterData 11 TextNode ''new''])
     = Some (textarea 0 LcuUndefined (Some ''new'') [CharacterData 11 TextNode ''new''],
             [SetValue 0 (Some ''new''), RemoveChild 0 1, InsertBefore 0 11 None])"
  "morph lcsDiff [] False (textarea 0 LcuUndefined None [CharacterData 1 TextNode ''same''])
       (textarea 10 LcuUndefined None [CharacterData 11 TextNode ''same''])
     = Some (textarea 0 LcuUndefined None [CharacterData 1 TextNode ''same''], [])"
  by code_simp+

theorem morph_push_protects_witness:
  "morph lcsDiff [] True (input 0 LcuUndefined ''old'' (Some ''typed'') (Some True))
       (input 10 LcuUndefined ''new'' None None)
     = Some (input 0 LcuUndefined ''old'' (Some ''typed'') (Some True), []) \<and>
   protected ''value'' \<and> protected ''checked'' \<and>
   \<not> list_ex (\<lambda>element. has element ''value'') (parents LcuUndefined []) \<and>
   \<not> list_ex (\<lambda>element. has element ''checked'') (parents LcuUndefined []) \<and>
   getAttribute (attributes (input 0 LcuUndefined ''old'' (Some ''typed'') (Some True))) ''value''
     = Some ''old'' \<and>
   valueProperty (input 0 LcuUndefined ''old'' (Some ''typed'') (Some True)) = Some ''typed'' \<and>
   checkedProperty (input 0 LcuUndefined ''old'' (Some ''typed'') (Some True)) = Some True \<and>
   morph lcsDiff [] False (input 0 LcuUndefined ''old'' (Some ''typed'') (Some True))
       (input 10 LcuUndefined ''new'' None None)
     = Some (input 0 LcuUndefined ''new'' (Some ''new'') (Some False),
             [SetAttribute 0 ''value'' ''new'', SetValue 0 (Some ''new''), SetChecked 0 (Some False)]) \<and>
   getAttribute (attributes (input 0 LcuUndefined ''new'' (Some ''new'') (Some False))) ''value''
     = Some ''new'' \<and>
   valueProperty (input 0 LcuUndefined ''new'' (Some ''new'') (Some False))
     = valueProperty (input 10 LcuUndefined ''new'' None None) \<and>
   checkedProperty (input 0 LcuUndefined ''new'' (Some ''new'') (Some False))
     = checkedProperty (input 10 LcuUndefined ''new'' None None) \<and>
   valueProperty (textarea 0 LcuUndefined (Some ''new'') [CharacterData 11 TextNode ''new''])
     = valueProperty (textarea 10 LcuUndefined None [CharacterData 11 TextNode ''new'']) \<and>
   parsedText [CharacterData 1 TextNode ''same''] \<and>
   valueProperty (textarea 0 LcuUndefined None [CharacterData 1 TextNode ''same''])
     = valueProperty (textarea 10 LcuUndefined None [CharacterData 11 TextNode ''same''])"
proof -
  note push = morph_push_protects [where diff = lcsDiff and ancestors = "[]" and i = 0
      and tag = "''INPUT''" and attrs = "[(''value'', ''old'')]" and l = LcuUndefined
      and v = "Some ''typed''" and c = "Some True" and fcs = "[]"
      and to = "input 10 LcuUndefined ''new'' None None"
      and from' = "input 0 LcuUndefined ''old'' (Some ''typed'') (Some True)" and ms = "[]"]
  note mount = morph_push_protects [where diff = lcsDiff and ancestors = "[]" and i = 0
      and tag = "''INPUT''" and attrs = "[(''value'', ''old'')]" and l = LcuUndefined
      and v = "Some ''typed''" and c = "Some True" and fcs = "[]"
      and i' = 10 and tag' = "''INPUT''" and attrs' = "[(''value'', ''new'')]" and l' = LcuUndefined
      and v' = None and c' = None and tcs = "[]" and a = "''value''"
      and from' = "input 0 LcuUndefined ''new'' (Some ''new'') (Some False)"
      and ms = "[SetAttribute 0 ''value'' ''new'', SetValue 0 (Some ''new''), SetChecked 0 (Some False)]"]
  note edited = morph_push_protects [where diff = lcsDiff and ancestors = "[]" and i = 0
      and tag = "''TEXTAREA''" and attrs = "[]" and l = LcuUndefined
      and v = "Some ''typed''" and c = None and fcs = "[CharacterData 1 TextNode ''old'']"
      and i' = 10 and tag' = "''TEXTAREA''" and attrs' = "[]" and l' = LcuUndefined
      and v' = None and c' = None and tcs = "[CharacterData 11 TextNode ''new'']"
      and from' = "textarea 0 LcuUndefined (Some ''new'') [CharacterData 11 TextNode ''new'']"
      and ms = "[SetValue 0 (Some ''new''), RemoveChild 0 1, InsertBefore 0 11 None]"]
  note parsed = morph_push_protects [where diff = lcsDiff and ancestors = "[]" and i = 0
      and tag = "''TEXTAREA''" and attrs = "[]" and l = LcuUndefined
      and v = None and c = None and fcs = "[CharacterData 1 TextNode ''same'']"
      and i' = 10 and tag' = "''TEXTAREA''" and attrs' = "[]" and l' = LcuUndefined
      and v' = None and c' = None and tcs = "[CharacterData 11 TextNode ''same'']"
      and from' = "textarea 0 LcuUndefined None [CharacterData 1 TextNode ''same'']"
      and ms = "[]"]
  have 1: "getAttribute (attributes (input 0 LcuUndefined ''old'' (Some ''typed'') (Some True))) ''value''
        = Some ''old'' \<and>
      valueProperty (input 0 LcuUndefined ''old'' (Some ''typed'') (Some True)) = Some ''typed'' \<and>
      checkedProperty (input 0 LcuUndefined ''old'' (Some ''typed'') (Some True)) = Some True"
    using push [of "''value''"] live_input_push
    by (simp add: input_def protected_def parents_def getAttribute_def)
  have 2: "getAttribute (attributes (input 0 LcuUndefined ''new'' (Some ''new'') (Some False))) ''value''
        = Some ''new'' \<and>
      valueProperty (input 0 LcuUndefined ''new'' (Some ''new'') (Some False))
        = valueProperty (input 10 LcuUndefined ''new'' None None) \<and>
      checkedProperty (input 0 LcuUndefined ''new'' (Some ''new'') (Some False))
        = checkedProperty (input 10 LcuUndefined ''new'' None None)"
    using mount live_input_mount by (simp add: input_def getAttribute_def)
  have 3: "valueProperty (textarea 0 LcuUndefined (Some ''new'') [CharacterData 11 TextNode ''new''])
     = valueProperty (textarea 10 LcuUndefined None [CharacterData 11 TextNode ''new''])"
    using edited live_textarea_mount(1) by (simp add: textarea_def)
  have 4: "valueProperty (textarea 0 LcuUndefined None [CharacterData 1 TextNode ''same''])
     = valueProperty (textarea 10 LcuUndefined None [CharacterData 11 TextNode ''same''])"
    using parsed live_textarea_mount(2) lcsDiff_same by (simp add: textarea_def)
  from 1 2 3 4 live_input_push live_input_mount show ?thesis
    by (simp add: protected_def parents_def)
qed

text \<open>
  Claim C3. On a push update of an element whose \<open>liveConnectionUpdate\<close> is \<open>false\<close>,
  \<open>morph\<close> returns the element as it was, with all its descendants, and makes no
  mutation, whatever the target is. On a push update of any element, let \<open>child\<close> be a
  live child whose \<open>liveConnectionUpdate\<close> is \<open>false\<close>, the live and target children all
  being different objects: after the removals and insertions \<open>child\<close> is still a child,
  as it was, no \<open>removeChild\<close> and no \<open>insertBefore\<close> was called for it, and it is still
  a child, as it was, when \<open>morph\<close> returns.
\<close>

theorem morph_push_keeps_pinned:
  "morph diff ancestors True (Element i tag attrs LcuFalse v c fcs) to
     = Some (Element i tag attrs LcuFalse v c fcs, []) \<and>
   (reconcile diff True i fcs tcs = Some (cs, ms3, toMorph) \<and>
    child \<in> set fcs \<and> lcu_of child = LcuFalse \<and> distinct (map nid (fcs @ tcs)) \<longrightarrow>
      child \<in> set cs \<and> RemoveChild i (nid child) \<notin> set ms3 \<and>
      (\<forall>a. InsertBefore i (nid child) a \<notin> set ms3)) \<and>
   (morph diff ancestors True (Element i tag attrs l v c fcs)
        (Element i' tag' attrs' l' v' c' tcs) = Some (from', ms) \<and>
    child \<in> set fcs \<and> lcu_of child = LcuFalse \<and> distinct (map nid (fcs @ tcs)) \<longrightarrow>
      child \<in> set (childNodes from'))"
proof (intro conjI impI)
  show "morph diff ancestors True (Element i tag attrs LcuFalse v c fcs) to
     = Some (Element i tag attrs LcuFalse v c fcs, [])"
    by (rule morph_pinned) simp
next
  assume a: "reconcile diff True i fcs tcs = Some (cs, ms3, toMorph) \<and>
    child \<in> set fcs \<and> lcu_of child = LcuFalse \<and> distinct (map nid (fcs @ tcs))"
  then have r: "reconcile diff True i fcs tcs = Some (cs, ms3, toMorph)"
    and c: "child \<in> set fcs" and l: "lcu_of child = LcuFalse"
    and d: "distinct (map nid (fcs @ tcs))" by simp_all
  from reconcile_keeps_pinned [OF r c l d]
  show "child \<in> set cs" "RemoveChild i (nid child) \<notin> set ms3"
    "\<forall>a. InsertBefore i (nid child) a \<notin> set ms3" by simp_all
next
  assume a: "morph diff ancestors True (Element i tag attrs l v c fcs)
        (Element i' tag' attrs' l' v' c' tcs) = Some (from', ms) \<and>
    child \<in> set fcs \<and> lcu_of child = LcuFalse \<and> distinct (map nid (fcs @ tcs))"
  then have m: "morph diff ancestors True (Element i tag attrs l v c fcs)
        (Element i' tag' attrs' l' v' c' tcs) = Some (from', ms)"
    and c: "child \<in> set fcs" and lc: "lcu_of child = LcuFalse"
    and d: "distinct (map nid (fcs @ tcs))" by simp_all
  show "child \<in> set (childNodes from')"
  proof (cases "l = LcuFalse")
    case True
    with m c show ?thesis by auto
  next
    case False
    then have "\<not> (True \<and> l = LcuFalse)" by simp
    with m obtain cs ms3 toMorph cs' ms4 attrs1 v1 c1 where
      r: "reconcile diff True i fcs tcs = Some (cs, ms3, toMorph)" and
      ma: "morphAll diff (parents l ancestors) True tcs toMorph (cs, []) = Some (cs', ms4)" and
      f: "from' = Element i tag attrs1 l v1 c1 cs'"
      by (rule morph_Element_Some)
    note k = reconcile_keeps_pinned [OF r c lc d]
    from d have inj: "inj_on nid (set fcs)" by (auto simp: distinct_map)
    have "\<forall>f \<in> fst ` set toMorph. nid f = nid child \<longrightarrow> f = child"
      using k c inj by (meson inj_onD subsetD)
    from morphAll_keeps [OF ma _ lc this] k f show ?thesis by simp
  qed
qed

lemma pinned_child_example:
  "morph lcsDiff [] True
       (ul 0 [li 1 ''A'', Element 2 ''DIV'' [] LcuFalse None None [], li 3 ''C''])
       (ul 10 [li 11 ''A'', li 13 ''C'', li 14 ''D''])
     = Some (ul 0 [li 1 ''A'', Element 2 ''DIV'' [] LcuFalse None None [], li 3 ''C'', li 14 ''D''],
             [InsertBefore 0 14 None])"
  by code_simp

theorem morph_push_keeps_pinned_witness:
  "morph lcsDiff [] True
       (ul 0 [li 1 ''A'', Element 2 ''DIV'' [] LcuFalse None None [], li 3 ''C''])
       (ul 10 [li 11 ''A'', li 13 ''C'', li 14 ''D''])
     = Some (ul 0 [li 1 ''A'', Element 2 ''DIV'' [] LcuFalse None None [], li 3 ''C'', li 14 ''D''],
             [InsertBefore 0 14 None]) \<and>
   lcsDiff (map key [li 1 ''A'', Element 2 ''DIV'' [] LcuFalse None None [], li 3 ''C''])
           (map key [li 11 ''A'', li 13 ''C'', li 14 ''D'']) = [(1, 2, 1, 1), (3, 3, 2, 3)] \<and>
   lcu_of (Element 2 ''DIV'' [] LcuFalse None None []) = LcuFalse \<and>
   distinct (map nid ([li 1 ''A'', Element 2 ''DIV'' [] LcuFalse None None [], li 3 ''C''] @
                      [li 11 ''A'', li 13 ''C'', li 14 ''D''])) \<and>
   Element 2 ''DIV'' [] LcuFalse None None []
     \<in> set (childNodes (ul 0 [li 1 ''A'', Element 2 ''DIV'' [] LcuFalse None None [], li 3 ''C'',
                               li 14 ''D'']))"
proof -
  have h: "lcsDiff (map key [li 1 ''A'', Element 2 ''DIV'' [] LcuFalse None None [], li 3 ''C''])
           (map key [li 11 ''A'', li 13 ''C'', li 14 ''D'']) = [(1, 2, 1, 1), (3, 3, 2, 3)]"
    by code_simp
  from pinned_child_example h
    morph_push_keeps_pinned [where diff = lcsDiff and ancestors = "[]" and i = 0 and tag = "''UL''"
      and attrs = "[]" and l = LcuUndefined and v = None and c = None
      and fcs = "[li 1 ''A'', Element 2 ''DIV'' [] LcuFalse None None [], li 3 ''C'']"
      and i' = 10 and tag' = "''UL''" and attrs' = "[]" and l' = LcuUndefined and v' = None
      and c' = None and tcs = "[li 11 ''A'', li 13 ''C'', li 14 ''D'']"
      and from' = "ul 0 [li 1 ''A'', Element 2 ''DIV'' [] LcuFalse None None [], li 3 ''C'', li 14 ''D'']"
      and ms = "[InsertBefore 0 14 None]"
      and child = "Element 2 ''DIV'' [] LcuFalse None None []"]
  show ?thesis by (simp add: ul_def li_def)
qed

lemma reorder_example:
  "morph lcsDiff [] False (ul 0 [li 1 ''A'', li 2 ''B'', li 3 ''C''])
       (ul 10 [li 13 ''C'', li 11 ''A'', li 12 ''B''])
     = Some (ul 0 [li 3 ''C'', li 1 ''A'', li 2 ''B''], [InsertBefore 0 3 (Some 1)])"
  by code_simp

text \<open>
  Claim C4. Let the removals and insertions of \<open>morph\<close> succeed on live children \<open>fcs\<close>
  and target children \<open>tcs\<close> that share no node. Then there are queues \<open>Q\<close>, the result of
  the first pair of loops, queues \<open>Q'\<close> and a list \<open>toAdd\<close> such that: under every key
  \<open>Q\<close> holds the removable live children of that key inside the gaps, in the order of the
  gaps; the mutations are a \<open>removeChild\<close> for every node left in \<open>Q'\<close> followed by an
  \<open>insertBefore\<close> for every entry of \<open>toAdd\<close>; \<open>toAdd\<close> has one entry for every target
  child inside a gap, in the order of the target, placed before the \<open>nodeAfter\<close> of the
  gap, and its node has the key of that target child and is that target child or a live
  child paired with it in \<open>toMorph\<close>; under every key the live children inserted again
  are the first ones of the queue of \<open>Q\<close>, in order, and the rest is the queue of \<open>Q'\<close>;
  a target child is inserted only if no live node of its key is left in \<open>Q'\<close>, so none of
  that key is removed; and a live child inserted again is paired in \<open>toMorph\<close> with a
  target child of its key.

  Let further \<open>morph\<close> return on an element that is not skipped as pinned, the live and
  target children all being different objects and the quadruples of the diff lying one
  after another. Then for every pair of \<open>toMorph\<close> whose live node is an element the
  recursive call of \<open>morph\<close> on the live node and its target child returns, the node it
  returns is a child of the result and its mutations are part of the mutations of the
  whole call.

  And morphing the items \<open>A, B, C\<close> into \<open>C, A, B\<close> leaves the three live items, in the
  order \<open>C, A, B\<close>, with no removal: the only mutation moves the live \<open>C\<close> before the
  live \<open>A\<close>.
\<close>

theorem reconcile_reuses_by_key:
  "(reconcile diff push p fcs tcs = Some (cs, ms, toMorph) \<and> set fcs \<inter> set tcs = {} \<longrightarrow>
      (\<exists>Q Q' toAdd.
         collect push fcs (diff (map key fcs) (map key tcs)) [] = Some Q \<and>
         (\<forall>k. queue Q k = filter (\<lambda>n. key n = k \<and> removable push n)
                  (map ((!) fcs) (gapIndices (diff (map key fcs) (map key tcs))))) \<and>
         ms = map (\<lambda>n. RemoveChild p (nid n)) (candidates Q') @
              map (\<lambda>(n, a). InsertBefore p (nid n) a) toAdd \<and>
         list_all2 (fills fcs tcs toMorph) toAdd
           (targetSlots fcs (diff (map key fcs) (map key tcs))) \<and>
         (\<forall>k. queue Q k = filter (\<lambda>n. n \<in> set fcs \<and> key n = k) (map fst toAdd) @ queue Q' k) \<and>
         (\<forall>(n, a) \<in> set toAdd. n \<in> set fcs \<or> n \<in> set tcs) \<and>
         (\<forall>(n, a) \<in> set toAdd. n \<in> set tcs \<longrightarrow> (\<forall>m \<in> set (candidates Q'). key m \<noteq> key n)) \<and>
         (\<forall>(n, a) \<in> set toAdd. n \<in> set fcs \<longrightarrow>
            (\<exists>j t. (n, j) \<in> set toMorph \<and> nth_opt tcs j = Some t \<and> key t = key n)))) \<and>
   (morph diff ancestors push (Element i tag attrs l v c fcs)
        (Element i' tag' attrs' l' v' c' tcs) = Some (from', ms') \<and>
    \<not> (push \<and> l = LcuFalse) \<and> distinct (map nid (fcs @ tcs)) \<and>
    hunksOrdered 0 (diff (map key fcs) (map key tcs) @
                      [(length fcs, length fcs, length tcs, length tcs)]) \<longrightarrow>
      (\<exists>cs ms3 toMorph.
         reconcile diff push i fcs tcs = Some (cs, ms3, toMorph) \<and>
         (\<forall>(f, j) \<in> set toMorph. \<forall>t. isElement f \<and> nth_opt tcs j = Some t \<longrightarrow>
            (\<exists>f' m before after.
               morph diff (parents l ancestors) push f t = Some (f', m) \<and>
               f' \<in> set (childNodes from') \<and> ms' = before @ m @ after)))) \<and>
   morph lcsDiff [] False (ul 0 [li 1 ''A'', li 2 ''B'', li 3 ''C''])
       (ul 10 [li 13 ''C'', li 11 ''A'', li 12 ''B''])
     = Some (ul 0 [li 3 ''C'', li 1 ''A'', li 2 ''B''], [InsertBefore 0 3 (Some 1)])"
proof (intro conjI impI)
  assume "reconcile diff push p fcs tcs = Some (cs, ms, toMorph) \<and> set fcs \<inter> set tcs = {}"
  then have r: "reconcile diff push p fcs tcs = Some (cs, ms, toMorph)"
    and d: "set fcs \<inter> set tcs = {}" by simp_all
  from reconcile_resolved [OF r d]
  show "\<exists>Q Q' toAdd.
         collect push fcs (diff (map key fcs) (map key tcs)) [] = Some Q \<and>
         (\<forall>k. queue Q k = filter (\<lambda>n. key n = k \<and> removable push n)
                  (map ((!) fcs) (gapIndices (diff (map key fcs) (map key tcs))))) \<and>
         ms = map (\<lambda>n. RemoveChild p (nid n)) (candidates Q') @
              map (\<lambda>(n, a). InsertBefore p (nid n) a) toAdd \<and>
         list_all2 (fills fcs tcs toMorph) toAdd
           (targetSlots fcs (diff (map key fcs) (map key tcs))) \<and>
         (\<forall>k. queue Q k = filter (\<lambda>n. n \<in> set fcs \<and> key n = k) (map fst toAdd) @ queue Q' k) \<and>
         (\<forall>(n, a) \<in> set toAdd. n \<in> set fcs \<or> n \<in> set tcs) \<and>
         (\<forall>(n, a) \<in> set toAdd. n \<in> set tcs \<longrightarrow> (\<forall>m \<in> set (candidates Q'). key m \<noteq> key n)) \<and>
         (\<forall>(n, a) \<in> set toAdd. n \<in> set fcs \<longrightarrow>
            (\<exists>j t. (n, j) \<in> set toMorph \<and> nth_opt tcs j = Some t \<and> key t = key n))"
    unfolding resolved_def by blast
next
  assume "morph diff ancestors push (Element i tag attrs l v c fcs)
        (Element i' tag' attrs' l' v' c' tcs) = Some (from', ms') \<and>
    \<not> (push \<and> l = LcuFalse) \<and> distinct (map nid (fcs @ tcs)) \<and>
    hunksOrdered 0 (diff (map key fcs) (map key tcs) @
                      [(length fcs, length fcs, length tcs, length tcs)])"
  then have m: "morph diff ancestors push (Element i tag attrs l v c fcs)
        (Element i' tag' attrs' l' v' c' tcs) = Some (from', ms')"
    and ns: "\<not> (push \<and> l = LcuFalse)" and d: "distinct (map nid (fcs @ tcs))"
    and ho: "hunksOrdered 0 (diff (map key fcs) (map key tcs) @
                      [(length fcs, length fcs, length tcs, length tcs)])"
    by simp_all
  from morph_children_morphed [OF m ns d ho]
  show "\<exists>cs ms3 toMorph.
         reconcile diff push i fcs tcs = Some (cs, ms3, toMorph) \<and>
         (\<forall>(f, j) \<in> set toMorph. \<forall>t. isElement f \<and> nth_opt tcs j = Some t \<longrightarrow>
            (\<exists>f' m before after.
               morph diff (parents l ancestors) push f t = Some (f', m) \<and>
               f' \<in> set (childNodes from') \<and> ms' = before @ m @ after))" .
next
  show "morph lcsDiff [] False (ul 0 [li 1 ''A'', li 2 ''B'', li 3 ''C''])
       (ul 10 [li 13 ''C'', li 11 ''A'', li 12 ''B''])
     = Some (ul 0 [li 3 ''C'', li 1 ''A'', li 2 ''B''], [InsertBefore 0 3 (Some 1)])"
    by (rule reorder_example)
qed

lemma reuse_example:
  "lcsDiff (map key [el 1 ''LI'' [(''key'', ''A'')] [], el 2 ''LI'' [(''key'', ''A'')] [],
                     el 3 ''LI'' [(''key'', ''C'')] [], el 4 ''LI'' [(''key'', ''D'')] []])
     (map key [el 13 ''LI'' [(''key'', ''C'')] [], el 14 ''LI'' [(''key'', ''D'')] [],
               el 11 ''LI'' [(''key'', ''A''), (''class'', ''x'')] []])
     = [(0, 2, 0, 0), (4, 4, 2, 3)]"
  "reconcile lcsDiff False 0
       [el 1 ''LI'' [(''key'', ''A'')] [], el 2 ''LI'' [(''key'', ''A'')] [],
        el 3 ''LI'' [(''key'', ''C'')] [], el 4 ''LI'' [(''key'', ''D'')] []]
       [el 13 ''LI'' [(''key'', ''C'')] [], el 14 ''LI'' [(''key'', ''D'')] [],
        el 11 ''LI'' [(''key'', ''A''), (''class'', ''x'')] []]
     = Some ([el 3 ''LI'' [(''key'', ''C'')] [], el 4 ''LI'' [(''key'', ''D'')] [],
              el 1 ''LI'' [(''key'', ''A'')] []],
             [RemoveChild 0 2, InsertBefore 0 1 None],
             [(el 3 ''LI'' [(''key'', ''C'')] [], 0), (el 4 ''LI'' [(''key'', ''D'')] [], 1),
              (el 1 ''LI'' [(''key'', ''A'')] [], 2)])"
  "morph lcsDiff [] False
       (ul 0 [el 1 ''LI'' [(''key'', ''A'')] [], el 2 ''LI'' [(''key'', ''A'')] [],
              el 3 ''LI'' [(''key'', ''C'')] [], el 4 ''LI'' [(''key'', ''D'')] []])
       (ul 10 [el 13 ''LI'' [(''key'', ''C'')] [], el 14 ''LI'' [(''key'', ''D'')] [],
               el 11 ''LI'' [(''key'', ''A''), (''class'', ''x'')] []])
     = Some (ul 0 [el 3 ''LI'' [(''key'', ''C'')] [], el 4 ''LI'' [(''key'', ''D'')] [],
                   el 1 ''LI'' [(''key'', ''A''), (''class'', ''x'')] []],
             [RemoveChild 0 2, InsertBefore 0 1 None, SetAttribute 1 ''class'' ''x''])"
  "morph lcsDiff (parents LcuUndefined []) False (el 1 ''LI'' [(''key'', ''A'')] [])
       (el 11 ''LI'' [(''key'', ''A''), (''class'', ''x'')] [])
     = Some (el 1 ''LI'' [(''key'', ''A''), (''class'', ''x'')] [], [SetAttribute 1 ''class'' ''x''])"
  by code_simp+

theorem reconcile_reuses_by_key_witness:
  "reconcile lcsDiff False 0
       [el 1 ''LI'' [(''key'', ''A'')] [], el 2 ''LI'' [(''key'', ''A'')] [],
        el 3 ''LI'' [(''key'', ''C'')] [], el 4 ''LI'' [(''key'', ''D'')] []]
       [el 13 ''LI'' [(''key'', ''C'')] [], el 14 ''LI'' [(''key'', ''D'')] [],
        el 11 ''LI'' [(''key'', ''A''), (''class'', ''x'')] []]
     = Some ([el 3 ''LI'' [(''key'', ''C'')] [], el 4 ''LI'' [(''key'', ''D'')] [],
              el 1 ''LI'' [(''key'', ''A'')] []],
             [RemoveChild 0 2, InsertBefore 0 1 None],
             [(el 3 ''LI'' [(''key'', ''C'')] [], 0), (el 4 ''LI'' [(''key'', ''D'')] [], 1),
              (el 1 ''LI'' [(''key'', ''A'')] [], 2)]) \<and>
   morph lcsDiff [] False
       (ul 0 [el 1 ''LI'' [(''key'', ''A'')] [], el 2 ''LI'' [(''key'', ''A'')] [],
              el 3 ''LI'' [(''key'', ''C'')] [], el 4 ''LI'' [(''key'', ''D'')] []])
       (ul 10 [el 13 ''LI'' [(''key'', ''C'')] [], el 14 ''LI'' [(''key'', ''D'')] [],
               el 11 ''LI'' [(''key'', ''A''), (''class'', ''x'')] []])
     = Some (ul 0 [el 3 ''LI'' [(''key'', ''C'')] [], el 4 ''LI'' [(''key'', ''D'')] [],
                   el 1 ''LI'' [(''key'', ''A''), (''class'', ''x'')] []],
             [RemoveChild 0 2, InsertBefore 0 1 None, SetAttribute 1 ''class'' ''x'']) \<and>
   hunksOrdered 0 ([(0, 2, 0, 0), (4, 4, 2, 3)] @ [(4, 4, 3, 3)]) \<and>
   (\<exists>Q' toAdd.
      [RemoveChild 0 2, InsertBefore 0 1 None] =
        map (\<lambda>n. RemoveChild 0 (nid n)) (candidates Q') @
        map (\<lambda>(n, a). InsertBefore 0 (nid n) a) toAdd \<and>
      list_all2
        (fills [el 1 ''LI'' [(''key'', ''A'')] [], el 2 ''LI'' [(''key'', ''A'')] [],
                el 3 ''LI'' [(''key'', ''C'')] [], el 4 ''LI'' [(''key'', ''D'')] []]
               [el 13 ''LI'' [(''key'', ''C'')] [], el 14 ''LI'' [(''key'', ''D'')] [],
                el 11 ''LI'' [(''key'', ''A''), (''class'', ''x'')] []]
               [(el 3 ''LI'' [(''key'', ''C'')] [], 0), (el 4 ''LI'' [(''key'', ''D'')] [], 1),
                (el 1 ''LI'' [(''key'', ''A'')] [], 2)])
        toAdd [(2, None)]) \<and>
   (\<exists>f' m before after.
      morph lcsDiff (parents LcuUndefined []) False (el 1 ''LI'' [(''key'', ''A'')] [])
          (el 11 ''LI'' [(''key'', ''A''), (''class'', ''x'')] []) = Some (f', m) \<and>
      f' \<in> set (childNodes
                  (ul 0 [el 3 ''LI'' [(''key'', ''C'')] [], el 4 ''LI'' [(''key'', ''D'')] [],
                         el 1 ''LI'' [(''key'', ''A''), (''class'', ''x'')] []])) \<and>
      [RemoveChild 0 2, InsertBefore 0 1 None, SetAttribute 1 ''class'' ''x'']
        = before @ m @ after)"
proof -
  let ?fcs = "[el 1 ''LI'' [(''key'', ''A'')] [], el 2 ''LI'' [(''key'', ''A'')] [],
               el 3 ''LI'' [(''key'', ''C'')] [], el 4 ''LI'' [(''key'', ''D'')] []]"
  let ?tcs = "[el 13 ''LI'' [(''key'', ''C'')] [], el 14 ''LI'' [(''key'', ''D'')] [],
               el 11 ''LI'' [(''key'', ''A''), (''class'', ''x'')] []]"
  let ?cs = "[el 3 ''LI'' [(''key'', ''C'')] [], el 4 ''LI'' [(''key'', ''D'')] [],
              el 1 ''LI'' [(''key'', ''A'')] []]"
  let ?cs' = "[el 3 ''LI'' [(''key'', ''C'')] [], el 4 ''LI'' [(''key'', ''D'')] [],
               el 1 ''LI'' [(''key'', ''A''), (''class'', ''x'')] []]"
  let ?toMorph = "[(el 3 ''LI'' [(''key'', ''C'')] [], 0::nat), (el 4 ''LI'' [(''key'', ''D'')] [], 1),
                   (el 1 ''LI'' [(''key'', ''A'')] [], 2)]"
  let ?ms3 = "[RemoveChild 0 2, InsertBefore 0 1 None]"
  let ?ms = "[RemoveChild 0 2, InsertBefore 0 1 None, SetAttribute 1 ''class'' ''x'']"
  note inst = reconcile_reuses_by_key [where diff = lcsDiff and push = False and p = 0
      and fcs = ?fcs and tcs = ?tcs and cs = ?cs and ms = ?ms3 and toMorph = ?toMorph
      and ancestors = "[]" and i = 0 and tag = "''UL''" and attrs = "[]" and l = LcuUndefined
      and v = None and c = None and i' = 10 and tag' = "''UL''" and attrs' = "[]"
      and l' = LcuUndefined and v' = None and c' = None and from' = "ul 0 ?cs'" and ms' = ?ms]
  have dis: "set ?fcs \<inter> set ?tcs = {}" by (simp add: el_def)
  have dn: "distinct (map nid (?fcs @ ?tcs))" by (simp add: el_def)
  have ho: "hunksOrdered 0 ([(0, 2, 0, 0), (4, 4, 2, 3)] @ [(4, 4, 3, 3)])" by simp
  have m: "morph lcsDiff [] False (Element 0 ''UL'' [] LcuUndefined None None ?fcs)
        (Element 10 ''UL'' [] LcuUndefined None None ?tcs) = Some (ul 0 ?cs', ?ms)"
    using reuse_example(3) by (simp add: ul_def)
  from inst reuse_example(2) dis have a: "\<exists>Q' toAdd.
      ?ms3 = map (\<lambda>n. RemoveChild 0 (nid n)) (candidates Q') @
             map (\<lambda>(n, a). InsertBefore 0 (nid n) a) toAdd \<and>
      list_all2 (fills ?fcs ?tcs ?toMorph) toAdd (targetSlots ?fcs (lcsDiff (map key ?fcs) (map key ?tcs)))"
    by blast
  have slots: "targetSlots ?fcs (lcsDiff (map key ?fcs) (map key ?tcs)) = [(2, None)]"
    unfolding reuse_example(1) by (simp add: targetSlots_def nth_opt_def)
  from inst m dn ho reuse_example(1) have "\<exists>cs ms3 toMorph.
         reconcile lcsDiff False 0 ?fcs ?tcs = Some (cs, ms3, toMorph) \<and>
         (\<forall>(f, j) \<in> set toMorph. \<forall>t. isElement f \<and> nth_opt ?tcs j = Some t \<longrightarrow>
            (\<exists>f' m before after.
               morph lcsDiff (parents LcuUndefined []) False f t = Some (f', m) \<and>
               f' \<in> set (childNodes (ul 0 ?cs')) \<and> ?ms = before @ m @ after))"
    by simp
  with reuse_example(2) have all: "\<forall>(f, j) \<in> set ?toMorph. \<forall>t. isElement f \<and> nth_opt ?tcs j = Some t \<longrightarrow>
            (\<exists>f' m before after.
               morph lcsDiff (parents LcuUndefined []) False f t = Some (f', m) \<and>
               f' \<in> set (childNodes (ul 0 ?cs')) \<and> ?ms = before @ m @ after)"
    by simp
  have "(el 1 ''LI'' [(''key'', ''A'')] [], 2) \<in> set ?toMorph" by simp
  moreover have "isElement (el 1 ''LI'' [(''key'', ''A'')] [])" by (simp add: el_def)
  moreover have "nth_opt ?tcs 2 = Some (el 11 ''LI'' [(''key'', ''A''), (''class'', ''x'')] [])"
    by (simp add: nth_opt_def)
  ultimately have b: "\<exists>f' m before after.
      morph lcsDiff (parents LcuUndefined []) False (el 1 ''LI'' [(''key'', ''A'')] [])
          (el 11 ''LI'' [(''key'', ''A''), (''class'', ''x'')] []) = Some (f', m) \<and>
      f' \<in> set (childNodes (ul 0 ?cs')) \<and> ?ms = before @ m @ after"
    using all by blast
  from a slots have a': "\<exists>Q' toAdd.
      ?ms3 = map (\<lambda>n. RemoveChild 0 (nid n)) (candidates Q') @
             map (\<lambda>(n, a). InsertBefore 0 (nid n) a) toAdd \<and>
      list_all2 (fills ?fcs ?tcs ?toMorph) toAdd [(2, None)]"
    by simp
  from reuse_example(2) reuse_example(3) ho a' b show ?thesis by blast
qed

text \<open>
  Claim C5. Let the diff report no change between equal key sequences, and let \<open>T\<close> be
  an element in which no object occurs twice. Then \<open>morph(T, clone(T))\<close>, not as a push
  update, returns with \<open>T\<close> as it was and with no mutation recorded: no attribute set or
  removed, no property written, no child removed or inserted, at any depth.
\<close>

theorem morph_idempotent:
  "(\<forall>ks. diff ks ks = []) \<Longrightarrow> distinct (nids T) \<Longrightarrow> isElement T \<Longrightarrow>
   morph diff ancestors False T (clone fresh T) = Some (T, [])"
proof (induction T arbitrary: ancestors)
  case (Element i tag attrs l v c cs)
  from Element.prems(2) have dc: "distinct (concat (map nids cs))" by simp
  note ds = distinct_concat_nids [OF dc]
  have rec: "reconcile diff False i cs (map (clone fresh) cs)
      = Some (cs, [], map (\<lambda>j. (cs ! j, j)) [0..<length cs])"
    by (rule reconcile_same) (simp_all add: Element.prems(1) key_clone comp_def)
  have ih: "\<And>f. f \<in> set cs \<Longrightarrow> isElement f \<Longrightarrow>
      morph diff (parents l ancestors) False f (clone fresh f) = Some (f, [])"
    using Element.IH Element.prems(1) ds by blast
  have all: "morphAll diff (parents l ancestors) False (map (clone fresh) cs)
      (map (\<lambda>j. (cs ! j, j)) [0..<length cs]) (cs, []) = Some (cs, [])"
    by (rule morphAll_same [OF ih]) (use ds in simp_all)
  show ?case
    by (simp add: morphAttributes_same morphProperties_clone rec all)
next
  case (CharacterData i ty s)
  then show ?case by simp
qed

theorem morph_idempotent_witness:
  "lcsDiff [''a'', ''b''] [''a'', ''b''] = [] \<and>
   distinct (nids (ul 0 [li 1 ''A'', input 2 LcuUndefined ''x'' (Some ''typed'') (Some True),
                         textarea 3 LcuUndefined None [CharacterData 4 TextNode ''t'']])) \<and>
   isElement (ul 0 [li 1 ''A'', input 2 LcuUndefined ''x'' (Some ''typed'') (Some True),
                    textarea 3 LcuUndefined None [CharacterData 4 TextNode ''t'']]) \<and>
   morph lcsDiff [] False
       (ul 0 [li 1 ''A'', input 2 LcuUndefined ''x'' (Some ''typed'') (Some True),
              textarea 3 LcuUndefined None [CharacterData 4 TextNode ''t'']])
       (clone ((+) 1000)
          (ul 0 [li 1 ''A'', input 2 LcuUndefined ''x'' (Some ''typed'') (Some True),
                 textarea 3 LcuUndefined None [CharacterData 4 TextNode ''t'']]))
     = Some (ul 0 [li 1 ''A'', input 2 LcuUndefined ''x'' (Some ''typed'') (Some True),
                   textarea 3 LcuUndefined None [CharacterData 4 TextNode ''t'']], [])"
proof -
  let ?T = "ul 0 [li 1 ''A'', input 2 LcuUndefined ''x'' (Some ''typed'') (Some True),
                  textarea 3 LcuUndefined None [CharacterData 4 TextNode ''t'']]"
  have d: "distinct (nids ?T)"
    by (simp add: ul_def li_def input_def textarea_def)
  have e: "isElement ?T"
    by (simp add: ul_def)
  have s: "\<forall>ks. lcsDiff ks ks = []" by (simp add: lcsDiff_same)
  from morph_idempotent [where diff = lcsDiff and ancestors = "[]" and fresh = "(+) 1000", OF s d e]
    d e s show ?thesis by simp
qed

text \<open>
  Claim C10. \<open>parents\<close> returns the element followed by its ancestors. So on a push
  update of an element whose own \<open>liveConnectionUpdate\<close> is a set, whatever its
  ancestors are, every attribute the set names has afterwards the value it has on the
  target; on an \<open>input\<close> the \<open>value\<close> and \<open>checked\<close> are afterwards what the target's are
  if the set names them; and so is the \<open>value\<close> of a text area if the set names it and
  the text area has been edited or differs from the target's when \<open>morph\<close> compares them,
  or both text areas hold what the parser leaves, the target is unedited and the diff
  reports nothing for equal sequences.
\<close>

theorem morph_self_pins:
  "parents l ancestors = l # ancestors \<and>
   (morph diff ancestors True (Element i tag attrs (LcuSet names) v c fcs)
        (Element i' tag' attrs' l' v' c' tcs) = Some (from', ms) \<longrightarrow>
      (a \<in> set names \<longrightarrow> getAttribute (attributes from') a = getAttribute attrs' a) \<and>
      (''value'' \<in> set names \<and> tag = ''INPUT'' \<longrightarrow>
         valueProperty from' = Some (jsString (valueProperty (Element i' tag' attrs' l' v' c' tcs)))) \<and>
      (''value'' \<in> set names \<and> tag = ''TEXTAREA'' \<and>
       (v \<noteq> None \<or> Some (childTextContent fcs) \<noteq> valueProperty (Element i' tag' attrs' l' v' c' tcs)) \<longrightarrow>
         valueProperty from' = Some (jsString (valueProperty (Element i' tag' attrs' l' v' c' tcs)))) \<and>
      (''value'' \<in> set names \<and> tag = ''TEXTAREA'' \<and> tag' = ''TEXTAREA'' \<and> v' = None \<and>
       parsedText fcs \<and> parsedText tcs \<and> (\<forall>ks. diff ks ks = []) \<longrightarrow>
         valueProperty from' = valueProperty (Element i' tag' attrs' l' v' c' tcs)) \<and>
      (''checked'' \<in> set names \<and> tag = ''INPUT'' \<longrightarrow>
         checkedProperty from' =
           Some (jsBoolean (checkedProperty (Element i' tag' attrs' l' v' c' tcs)))))"
proof (intro conjI impI)
  show "parents l ancestors = l # ancestors" by (simp add: parents_def)
next
  assume m: "morph diff ancestors True (Element i tag attrs (LcuSet names) v c fcs)
        (Element i' tag' attrs' l' v' c' tcs) = Some (from', ms)"
  have ns: "\<not> (True \<and> LcuSet names = LcuFalse)" by simp
  have upd: "\<not> (True \<and> \<not> list_ex (\<lambda>element. has element x) (parents (LcuSet names) ancestors))"
    if "x \<in> set names" for x
    using that by (simp add: parents_def)
  show "getAttribute (attributes from') a = getAttribute attrs' a" if "a \<in> set names"
    using morph_Element_result [OF m ns] that by (auto simp: morphAttributes_get parents_def)
  show "valueProperty from' = Some (jsString (valueProperty (Element i' tag' attrs' l' v' c' tcs)))"
    if "''value'' \<in> set names \<and> tag = ''INPUT''"
    using morph_value_updated(1) [OF m ns upd] that by blast
  show "valueProperty from' = Some (jsString (valueProperty (Element i' tag' attrs' l' v' c' tcs)))"
    if "''value'' \<in> set names \<and> tag = ''TEXTAREA'' \<and>
       (v \<noteq> None \<or> Some (childTextContent fcs) \<noteq> valueProperty (Element i' tag' attrs' l' v' c' tcs))"
    using morph_value_updated(2) [OF m ns upd] that by blast
  show "valueProperty from' = valueProperty (Element i' tag' attrs' l' v' c' tcs)"
    if "''value'' \<in> set names \<and> tag = ''TEXTAREA'' \<and> tag' = ''TEXTAREA'' \<and> v' = None \<and>
       parsedText fcs \<and> parsedText tcs \<and> (\<forall>ks. diff ks ks = [])"
    using morph_value_updated(3) [OF m ns upd] that by blast
  show "checkedProperty from' = Some (jsBoolean (checkedProperty (Element i' tag' attrs' l' v' c' tcs)))"
    if "''checked'' \<in> set names \<and> tag = ''INPUT''"
    using morph_checked_updated [OF m ns upd] that by blast
qed

lemma live_input_self_pinned:
  "morph lcsDiff [] True (input 0 (LcuSet [''value'']) ''old'' (Some ''typed'') (Some True))
       (input 10 LcuUndefined ''new'' None None)
     = Some (input 0 (LcuSet [''value'']) ''new'' (Some ''new'') (Some True),
             [SetAttribute 0 ''value'' ''new'', SetValue 0 (Some ''new'')])"
  "morph lcsDiff [] True (input 0 (LcuSet [''value'']) ''old'' None None)
       (input 10 LcuUndefined ''new'' None None)
     = Some (input 0 (LcuSet [''value'']) ''new'' None None, [SetAttribute 0 ''value'' ''new''])"
  by code_simp+

theorem morph_self_pins_witness:
  "parents (LcuSet [''value'']) [] = [LcuSet [''value'']] \<and>
   morph lcsDiff [] True (input 0 (LcuSet [''value'']) ''old'' (Some ''typed'') (Some True))
       (input 10 LcuUndefined ''new'' None None)
     = Some (input 0 (LcuSet [''value'']) ''new'' (Some ''new'') (Some True),
             [SetAttribute 0 ''value'' ''new'', SetValue 0 (Some ''new'')]) \<and>
   getAttribute (attributes (input 0 (LcuSet [''value'']) ''new'' (Some ''new'') (Some True))) ''value''
     = Some ''new'' \<and>
   valueProperty (input 0 (LcuSet [''value'']) ''new'' (Some ''new'') (Some True))
     = valueProperty (input 10 LcuUndefined ''new'' None None) \<and>
   morph lcsDiff [] True (input 0 (LcuSet [''value'']) ''old'' None None)
       (input 10 LcuUndefined ''new'' None None)
     = Some (input 0 (LcuSet [''value'']) ''new'' None None, [SetAttribute 0 ''value'' ''new'']) \<and>
   valueProperty (input 0 (LcuSet [''value'']) ''new'' None None)
     = valueProperty (input 10 LcuUndefined ''new'' None None)"
proof -
  note edited = morph_self_pins [where diff = lcsDiff and ancestors = "[]" and i = 0
      and tag = "''INPUT''" and attrs = "[(''value'', ''old'')]" and names = "[''value'']"
      and v = "Some ''typed''" and c = "Some True" and fcs = "[]" and i' = 10 and tag' = "''INPUT''"
      and attrs' = "[(''value'', ''new'')]" and l' = LcuUndefined and v' = None and c' = None
      and tcs = "[]" and from' = "input 0 (LcuSet [''value'']) ''new'' (Some ''new'') (Some True)"
      and ms = "[SetAttribute 0 ''value'' ''new'', SetValue 0 (Some ''new'')]" and a = "''value''"
      and l = "LcuSet [''value'']"]
  note unedited = morph_self_pins [where diff = lcsDiff and ancestors = "[]" and i = 0
      and tag = "''INPUT''" and attrs = "[(''value'', ''old'')]" and names = "[''value'']"
      and v = None and c = None and fcs = "[]" and i' = 10 and tag' = "''INPUT''"
      and attrs' = "[(''value'', ''new'')]" and l' = LcuUndefined and v' = None and c' = None
      and tcs = "[]" and from' = "input 0 (LcuSet [''value'']) ''new'' None None"
      and ms = "[SetAttribute 0 ''value'' ''new'']" and a = "''value''"
      and l = "LcuSet [''value'']"]
  have 1: "parents (LcuSet [''value'']) [] = [LcuSet [''value'']] \<and>
      getAttribute (attributes (input 0 (LcuSet [''value'']) ''new'' (Some ''new'') (Some True))) ''value''
        = Some ''new'' \<and>
      valueProperty (input 0 (LcuSet [''value'']) ''new'' (Some ''new'') (Some True))
        = valueProperty (input 10 LcuUndefined ''new'' None None)"
    using edited live_input_self_pinned(1) by (simp add: input_def getAttribute_def)
  have 2: "valueProperty (input 0 (LcuSet [''value'']) ''new'' None None)
        = valueProperty (input 10 LcuUndefined ''new'' None None)"
    using unedited live_input_self_pinned(2) by (simp add: input_def getAttribute_def)
  from 1 2 live_input_self_pinned show ?thesis by simp
qed

section \<open>Properties of mounting and of the live session\<close>





lemma streamLoop_mountAll:
  "streamLoop diff records (calls, d) = (calls', p) \<Longrightarrow>
     p = mountAll diff d records \<and>
     (\<exists>k \<le> length records. calls' = calls @ map (\<lambda>r. (r, True)) (take k records) \<and>
        (\<forall>n < length records. n < k \<longleftrightarrow> mountAll diff d (take n records) \<noteq> None))"
proof (induction records arbitrary: calls d)
  case Nil
  then show ?case by auto
next
  case (Cons r records)
  show ?case
  proof (cases "documentMount diff d r True")
    case None
    with Cons.prems have c: "calls' = calls @ map (\<lambda>r. (r, True)) (take 1 (r # records))" and p: "p = None"
      by simp_all
    have "\<forall>n < length (r # records). n < 1 \<longleftrightarrow> mountAll diff d (take n (r # records)) \<noteq> None"
    proof (intro allI impI)
      fix n assume "n < length (r # records)"
      show "n < 1 \<longleftrightarrow> mountAll diff d (take n (r # records)) \<noteq> None"
        using None by (cases n) simp_all
    qed
    with c p None show ?thesis by (intro conjI exI [of _ 1]) simp_all
  next
    case (Some d')
    with Cons.prems have "streamLoop diff records (calls @ [(r, True)], d') = (calls', p)"
      by simp
    from Cons.IH [OF this] obtain k where
      p: "p = mountAll diff d' records" and
      k: "k \<le> length records" "calls' = (calls @ [(r, True)]) @ map (\<lambda>r. (r, True)) (take k records)" and
      n: "\<forall>n < length records. n < k \<longleftrightarrow> mountAll diff d' (take n records) \<noteq> None"
      by blast
    have "\<forall>n < length (r # records). n < Suc k \<longleftrightarrow> mountAll diff d (take n (r # records)) \<noteq> None"
    proof (intro allI impI)
      fix m assume "m < length (r # records)"
      then show "m < Suc k \<longleftrightarrow> mountAll diff d (take m (r # records)) \<noteq> None"
        using Some n by (cases m) simp_all
    qed
    with p k Some show ?thesis by (intro conjI exI [of _ "Suc k"]) simp_all
  qed
qed

text \<open>
  Claim C9. Let the response have status 200 and let no reload be pending. Then the
  attempt does not throw, and the calls of \<open>documentMount\<close> are these: the record at
  position \<open>n\<close> of the records that arrived has a call exactly if the calls for all the
  records before it have returned; the call at position \<open>n\<close> is the one for the record at
  position \<open>n\<close>, flagged as a Live Connection update, so there are never more calls than
  records and the calls are in the order of arrival; the page afterwards is what
  \<open>documentMount\<close> makes of the page record after record; and if no call throws, the
  calls are one for every record.
\<close>

theorem liveConnection_mounts_in_order:
  "status = 200 \<and> \<not> reloadOnConnect \<longrightarrow>
     \<not> threw (connectionAttempt diff reload reloadOnConnect status records d) \<and>
     length (documentMounts (connectionAttempt diff reload reloadOnConnect status records d))
       \<le> length records \<and>
     (\<forall>n < length records.
        (n < length (documentMounts (connectionAttempt diff reload reloadOnConnect status records d))
           \<longleftrightarrow> mountAll diff (removeFailedToConnect d) (take n records) \<noteq> None) \<and>
        (n < length (documentMounts (connectionAttempt diff reload reloadOnConnect status records d))
           \<longrightarrow> documentMounts (connectionAttempt diff reload reloadOnConnect status records d) ! n
                 = (records ! n, True))) \<and>
     page (connectionAttempt diff reload reloadOnConnect status records d)
       = mountAll diff (removeFailedToConnect d) records \<and>
     (mountAll diff (removeFailedToConnect d) records \<noteq> None \<longrightarrow>
        documentMounts (connectionAttempt diff reload reloadOnConnect status records d)
          = map (\<lambda>r. (r, True)) records)"
proof (intro impI)
  assume a: "status = 200 \<and> \<not> reloadOnConnect"
  let ?d1 = "removeFailedToConnect d"
  let ?A = "connectionAttempt diff reload reloadOnConnect status records d"
  obtain calls p where s: "streamLoop diff records ([], ?d1) = (calls, p)"
    by (cases "streamLoop diff records ([], ?d1)")
  from a s have c: "?A = \<lparr>threw = False, documentMounts = calls, page = p, reloadOnConnectAfter = reload\<rparr>"
    by (simp add: connectionAttempt_def Let_def)
  from streamLoop_mountAll [OF s] obtain k where
    p: "p = mountAll diff ?d1 records" and
    k: "k \<le> length records" and calls: "calls = map (\<lambda>r. (r, True)) (take k records)" and
    n: "\<forall>n < length records. n < k \<longleftrightarrow> mountAll diff ?d1 (take n records) \<noteq> None"
    by auto
  from k calls have len: "length calls = k" by simp
  have nth: "calls ! n = (records ! n, True)" if "n < k" for n
    using that k calls by simp
  have full: "calls = map (\<lambda>r. (r, True)) records" if ok: "mountAll diff ?d1 records \<noteq> None"
  proof (cases "k = length records")
    case True
    with calls show ?thesis by simp
  next
    case False
    with k have lt: "k < length records" by simp
    have pre: "mountAll diff e (take m rs) \<noteq> None" if "mountAll diff e rs \<noteq> None" for e m rs
      using that
    proof (induction rs arbitrary: e m)
      case Nil
      then show ?case by simp
    next
      case (Cons r rs)
      then show ?case by (cases m) (auto split: option.splits)
    qed
    from pre [OF ok] have "mountAll diff ?d1 (take k records) \<noteq> None" .
    with n lt have "k < k" by blast
    then show ?thesis by simp
  qed
  show "\<not> threw ?A \<and>
     length (documentMounts ?A) \<le> length records \<and>
     (\<forall>n < length records.
        (n < length (documentMounts ?A) \<longleftrightarrow> mountAll diff ?d1 (take n records) \<noteq> None) \<and>
        (n < length (documentMounts ?A) \<longrightarrow> documentMounts ?A ! n = (records ! n, True))) \<and>
     page ?A = mountAll diff ?d1 records \<and>
     (mountAll diff ?d1 records \<noteq> None \<longrightarrow> documentMounts ?A = map (\<lambda>r. (r, True)) records)"
    unfolding c using k len n nth p full by simp
qed

lemma three_payloads_page:
  "mountAll lcsDiff (removeFailedToConnect liveDocument)
       [htmlPage 100 ''1'' ''a'', htmlPage 200 ''1'' ''b'', htmlPage 300 ''1'' ''c'']
     = Some (liveDocument
         \<lparr>documentElement :=
            el 0 ''HTML'' []
              [el 1 ''HEAD'' [] [el 2 ''META'' [(''name'', ''version''), (''content'', ''1'')] []],
               el 3 ''BODY'' [] [el 6 ''P'' [(''class'', ''c'')] []]],
          dispatched := [True, True, True],
          mutations := [RemoveChild 3 4, SetAttribute 6 ''class'' ''a'',
                        SetAttribute 6 ''class'' ''b'', SetAttribute 6 ''class'' ''c'']\<rparr>)"
  by code_simp

lemma thrown_payload_pages:
  "mountAll lcsDiff (removeFailedToConnect liveDocument)
       (take 2 [htmlPage 100 ''1'' ''a'', headPage 200 ''1'', htmlPage 300 ''2'' ''c'',
                htmlPage 400 ''1'' ''d'']) \<noteq> None"
  "mountAll lcsDiff (removeFailedToConnect liveDocument)
       (take 3 [htmlPage 100 ''1'' ''a'', headPage 200 ''1'', htmlPage 300 ''2'' ''c'',
                htmlPage 400 ''1'' ''d'']) = None"
  "mountAll lcsDiff (removeFailedToConnect liveDocument)
       [htmlPage 100 ''1'' ''a'', headPage 200 ''1'', htmlPage 300 ''2'' ''c'',
        htmlPage 400 ''1'' ''d''] = None"
  by code_simp+

theorem liveConnection_mounts_in_order_witness:
  "(200::nat) = 200 \<and>
   documentMounts (connectionAttempt lcsDiff False False 200
           [htmlPage 100 ''1'' ''a'', htmlPage 200 ''1'' ''b'', htmlPage 300 ''1'' ''c''] liveDocument)
     = [(htmlPage 100 ''1'' ''a'', True), (htmlPage 200 ''1'' ''b'', True),
        (htmlPage 300 ''1'' ''c'', True)] \<and>
   page (connectionAttempt lcsDiff False False 200
           [htmlPage 100 ''1'' ''a'', htmlPage 200 ''1'' ''b'', htmlPage 300 ''1'' ''c''] liveDocument)
     = Some (liveDocument
         \<lparr>documentElement :=
            el 0 ''HTML'' []
              [el 1 ''HEAD'' [] [el 2 ''META'' [(''name'', ''version''), (''content'', ''1'')] []],
               el 3 ''BODY'' [] [el 6 ''P'' [(''class'', ''c'')] []]],
          dispatched := [True, True, True],
          mutations := [RemoveChild 3 4, SetAttribute 6 ''class'' ''a'',
                        SetAttribute 6 ''class'' ''b'', SetAttribute 6 ''class'' ''c'']\<rparr>) \<and>
   length (documentMounts (connectionAttempt lcsDiff False False 200
           [htmlPage 100 ''1'' ''a'', headPage 200 ''1'', htmlPage 300 ''2'' ''c'',
            htmlPage 400 ''1'' ''d''] liveDocument)) = 3 \<and>
   documentMounts (connectionAttempt lcsDiff False False 200
           [htmlPage 100 ''1'' ''a'', headPage 200 ''1'', htmlPage 300 ''2'' ''c'',
            htmlPage 400 ''1'' ''d''] liveDocument) ! 2 = (htmlPage 300 ''2'' ''c'', True) \<and>
   page (connectionAttempt lcsDiff False False 200
           [htmlPage 100 ''1'' ''a'', headPage 200 ''1'', htmlPage 300 ''2'' ''c'',
            htmlPage 400 ''1'' ''d''] liveDocument) = None"
proof -
  let ?good = "[htmlPage 100 ''1'' ''a'', htmlPage 200 ''1'' ''b'', htmlPage 300 ''1'' ''c'']"
  let ?bad = "[htmlPage 100 ''1'' ''a'', headPage 200 ''1'', htmlPage 300 ''2'' ''c'',
               htmlPage 400 ''1'' ''d'']"
  note good = liveConnection_mounts_in_order [where status = 200 and reloadOnConnect = False
      and diff = lcsDiff and reload = False and records = ?good and d = liveDocument]
  note bad = liveConnection_mounts_in_order [where status = 200 and reloadOnConnect = False
      and diff = lcsDiff and reload = False and records = ?bad and d = liveDocument]
  from good three_payloads_page have 1:
    "documentMounts (connectionAttempt lcsDiff False False 200 ?good liveDocument)
       = [(htmlPage 100 ''1'' ''a'', True), (htmlPage 200 ''1'' ''b'', True),
          (htmlPage 300 ''1'' ''c'', True)]"
    by simp
  from good three_payloads_page have 2:
    "page (connectionAttempt lcsDiff False False 200 ?good liveDocument)
     = Some (liveDocument
         \<lparr>documentElement :=
            el 0 ''HTML'' []
              [el 1 ''HEAD'' [] [el 2 ''META'' [(''name'', ''version''), (''content'', ''1'')] []],
               el 3 ''BODY'' [] [el 6 ''P'' [(''class'', ''c'')] []]],
          dispatched := [True, True, True],
          mutations := [RemoveChild 3 4, SetAttribute 6 ''class'' ''a'',
                        SetAttribute 6 ''class'' ''b'', SetAttribute 6 ''class'' ''c'']\<rparr>)"
    by simp
  from bad have all: "\<forall>n < length ?bad.
        (n < length (documentMounts (connectionAttempt lcsDiff False False 200 ?bad liveDocument))
           \<longleftrightarrow> mountAll lcsDiff (removeFailedToConnect liveDocument) (take n ?bad) \<noteq> None) \<and>
        (n < length (documentMounts (connectionAttempt lcsDiff False False 200 ?bad liveDocument))
           \<longrightarrow> documentMounts (connectionAttempt lcsDiff False False 200 ?bad liveDocument) ! n
                 = (?bad ! n, True))"
    and pg: "page (connectionAttempt lcsDiff False False 200 ?bad liveDocument)
       = mountAll lcsDiff (removeFailedToConnect liveDocument) ?bad"
    by simp_all
  from all [rule_format, of 2] thrown_payload_pages(1) have lt:
    "2 < length (documentMounts (connectionAttempt lcsDiff False False 200 ?bad liveDocument))"
    and 4: "documentMounts (connectionAttempt lcsDiff False False 200 ?bad liveDocument) ! 2
       = (htmlPage 300 ''2'' ''c'', True)"
    by simp_all
  from all [rule_format, of 3] thrown_payload_pages(2) have
    "\<not> 3 < length (documentMounts (connectionAttempt lcsDiff False False 200 ?bad liveDocument))"
    by simp
  with lt have 3:
    "length (documentMounts (connectionAttempt lcsDiff False False 200 ?bad liveDocument)) = 3"
    by simp
  from pg thrown_payload_pages(3) have 5:
    "page (connectionAttempt lcsDiff False False 200 ?bad liveDocument) = None"
    by simp
  from 1 2 3 4 5 show ?thesis by simp
qed

end
